theory Spec2Isabelle
  imports Complex_Main "HOL-Library.Char_ord"
begin

section \<open>Data model of the chess engine (src/ai.js, class ChessEngine)\<close>

text \<open>
  A board cell is a JavaScript string: the empty string for an empty square, otherwise
  one piece letter (upper case for white, lower case for black).  The empty string is
  \<open>None\<close>, a one-letter string \<open>Some c\<close>.  Characters are ASCII: \<open>parseFEN\<close> admits only
  the twelve piece letters, and \<open>doMove\<close> writes only letters it read from the board or a
  promotion letter.  The board is an array of 8 rows (row 0 is rank 8) of 8 cells.
  Square coordinates are JavaScript numbers that hold integers, hence \<open>int\<close>.
\<close>

datatype color = White | Black

type_synonym cell = "char option"
type_synonym board = "cell list list"
type_synonym square = "int \<times> int"

text \<open>
  The clocks are JavaScript numbers produced by \<open>parseInt\<close> and incremented by \<open>++\<close>:
  an integer or \<open>NaN\<close>.  (Integers are exact below \<open>2^53\<close>; rounding beyond that is not
  modelled.)
\<close>

datatype jsnum = NaN | Num int

record castlingRights =
  wK :: bool
  wQ :: bool
  bK :: bool
  bQ :: bool

record position =
  board :: board
  activeColor :: color
  castling :: castlingRights
  enPassant :: "square option"
  halfmove :: jsnum
  fullmove :: jsnum

text \<open>
  The \<open>flags\<close> object of a move: the generator writes \<open>{}\<close>, \<open>{double: true}\<close>,
  \<open>{enpassant: true}\<close> or \<open>{castle: "K"}\<close> / \<open>{castle: "Q"}\<close>; \<open>doMove\<close> tests the
  properties \<open>enpassant\<close> and \<open>castle\<close> independently.
\<close>

record flags =
  double :: bool
  enpassant :: bool
  castle :: "char option"

record move =
  from_sq :: square
  to_sq :: square
  piece :: cell
  capture :: cell
  promotion :: "char option"
  flags :: flags

definition noFlags :: flags where
  "noFlags = \<lparr>double = False, enpassant = False, castle = None\<rparr>"

definition mkMove :: "square \<Rightarrow> square \<Rightarrow> cell \<Rightarrow> cell \<Rightarrow> char option \<Rightarrow> flags \<Rightarrow> move" where
  "mkMove f t p cap promo fl =
     \<lparr>from_sq = f, to_sq = t, piece = p, capture = cap, promotion = promo, flags = fl\<rparr>"

subsection \<open>Utilities\<close>

definition toLowerCase :: "char \<Rightarrow> char" where
  "toLowerCase ch =
     (let n = (of_char ch :: nat) in if 65 \<le> n \<and> n \<le> 90 then char_of (n + 32) else ch)"

definition toUpperCase :: "char \<Rightarrow> char" where
  "toUpperCase ch =
     (let n = (of_char ch :: nat) in if 97 \<le> n \<and> n \<le> 122 then char_of (n - 32) else ch)"

definition lower :: "cell \<Rightarrow> cell" where
  "lower p = map_option toLowerCase p"

definition oppositeColor :: "color \<Rightarrow> color" where
  "oppositeColor c = (if c = White then Black else White)"

text \<open>\<open>pieceColor\<close> returns \<open>null\<close> (here \<open>None\<close>) for an empty cell.\<close>

definition pieceColor :: "cell \<Rightarrow> color option" where
  "pieceColor p =
     (case p of None \<Rightarrow> None
      | Some ch \<Rightarrow> Some (if ch = toUpperCase ch then White else Black))"

text \<open>\<open>oppositeColor(pieceColor(p))\<close>: the JavaScript function maps everything but \<open>"w"\<close>,
  also \<open>null\<close>, to \<open>"w"\<close>.\<close>

definition enemyOf :: "color option \<Rightarrow> color" where
  "enemyOf col = (if col = Some White then Black else White)"

definition onBoard :: "int \<Rightarrow> int \<Rightarrow> bool" where
  "onBoard r c = (r \<ge> 0 \<and> r < 8 \<and> c \<ge> 0 \<and> c < 8)"

definition cellAt :: "board \<Rightarrow> int \<Rightarrow> int \<Rightarrow> cell" where
  "cellAt b r c = b ! nat r ! nat c"

definition setCell :: "board \<Rightarrow> int \<Rightarrow> int \<Rightarrow> cell \<Rightarrow> board" where
  "setCell b r c v = b[nat r := (b ! nat r)[nat c := v]]"

definition range8 :: "int list" where
  "range8 = [0, 1, 2, 3, 4, 5, 6, 7]"

text \<open>\<open>cloneState\<close> is a deep copy; values are immutable here, so it is the identity.\<close>

definition cloneState :: "position \<Rightarrow> position" where
  "cloneState S = S"

section \<open>Attack detection\<close>

definition knightDeltas :: "(int \<times> int) list" where
  "knightDeltas = [(2, 1), (2, -1), (-2, 1), (-2, -1), (1, 2), (1, -2), (-1, 2), (-1, -2)]"

definition diagDirs :: "(int \<times> int) list" where
  "diagDirs = [(1, 1), (1, -1), (-1, 1), (-1, -1)]"

definition straightDirs :: "(int \<times> int) list" where
  "straightDirs = [(1, 0), (-1, 0), (0, 1), (0, -1)]"

definition kingDeltas :: "(int \<times> int) list" where
  "kingDeltas = [(-1, -1), (-1, 0), (-1, 1), (0, -1), (0, 1), (1, -1), (1, 0), (1, 1)]"

text \<open>
  The \<open>while (onBoard(nr, nc))\<close> loop of a sliding attack along \<open>(dr, dc)\<close>: it stops at
  the first occupied square and reports whether that square holds an attacker of one of
  the two kinds.  Every direction in the source is a non-zero constant; the guard
  \<open>(dr, dc) \<noteq> (0, 0)\<close> makes the recursion total (with a zero step the loop of the source
  would not end on an empty square).
\<close>

function rayAttack :: "board \<Rightarrow> color \<Rightarrow> char \<Rightarrow> char \<Rightarrow> int \<Rightarrow> int \<Rightarrow> int \<Rightarrow> int \<Rightarrow> bool" where
  "rayAttack b attacker k1 k2 nr nc dr dc =
     (if onBoard nr nc \<and> (dr, dc) \<noteq> (0, 0) then
        (let t = cellAt b nr nc in
         if t \<noteq> None then
           pieceColor t = Some attacker \<and> (lower t = Some k1 \<or> lower t = Some k2)
         else rayAttack b attacker k1 k2 (nr + dr) (nc + dc) dr dc)
      else False)"
  by pat_completeness auto
termination
  by (relation "measure (\<lambda>(b, a, k1, k2, nr, nc, dr, dc).
        if dr > 0 then nat (8 - nr) else if dr < 0 then nat (nr + 1)
        else if dc > 0 then nat (8 - nc) else nat (nc + 1))")
     (auto simp: onBoard_def)

declare rayAttack.simps [simp del]

definition pieceIs :: "board \<Rightarrow> int \<Rightarrow> int \<Rightarrow> char \<Rightarrow> color \<Rightarrow> bool" where
  "pieceIs b r c k attacker =
     (onBoard r c \<and> cellAt b r c \<noteq> None \<and> lower (cellAt b r c) = Some k
      \<and> pieceColor (cellAt b r c) = Some attacker)"

definition isSquareAttacked :: "position \<Rightarrow> int \<Rightarrow> int \<Rightarrow> color \<Rightarrow> bool" where
  "isSquareAttacked S r c attacker =
     (let b = board S;
          pd = (if attacker = White then -1 else 1);
          pr = r - pd
      in list_ex (\<lambda>pc. pieceIs b pr pc (CHR ''p'') attacker) [c - 1, c + 1]
       \<or> list_ex (\<lambda>(dr, dc). pieceIs b (r + dr) (c + dc) (CHR ''n'') attacker) knightDeltas
       \<or> list_ex (\<lambda>(dr, dc). rayAttack b attacker (CHR ''b'') (CHR ''q'') (r + dr) (c + dc) dr dc)
            diagDirs
       \<or> list_ex (\<lambda>(dr, dc). rayAttack b attacker (CHR ''r'') (CHR ''q'') (r + dr) (c + dc) dr dc)
            straightDirs
       \<or> list_ex (\<lambda>(dr, dc). pieceIs b (r + dr) (c + dc) (CHR ''k'') attacker) kingDeltas)"

section \<open>Pseudo-legal move generation\<close>

definition promoKinds :: "char list" where
  "promoKinds = ''qrbn''"

definition pawnMoves :: "position \<Rightarrow> int \<Rightarrow> int \<Rightarrow> move list" where
  "pawnMoves S r c =
     (let b = board S;
          p = cellAt b r c;
          col = pieceColor p;
          dir = (if col = Some White then -1 else 1);
          startRow = (if col = Some White then 6 else 1);
          enemy = enemyOf col;
          aheadR = r + dir
      in
        (if onBoard aheadR c \<and> cellAt b aheadR c = None then
           (if aheadR = 0 \<or> aheadR = 7 then
              map (\<lambda>promo. mkMove (r, c) (aheadR, c) p None (Some promo) noFlags) promoKinds
            else [mkMove (r, c) (aheadR, c) p None None noFlags])
           @ (if r = startRow then
                (let twoR = r + 2 * dir in
                 if cellAt b twoR c = None then
                   [mkMove (r, c) (twoR, c) p None None (noFlags\<lparr>double := True\<rparr>)]
                 else [])
              else [])
         else [])
        @ concat (map (\<lambda>dc.
            (let nc = c + dc; nr = r + dir in
             if onBoard nr nc then
               (let target = cellAt b nr nc in
                (if target \<noteq> None \<and> pieceColor target = Some enemy then
                   (if nr = 0 \<or> nr = 7 then
                      map (\<lambda>promo. mkMove (r, c) (nr, nc) p target (Some promo) noFlags) promoKinds
                    else [mkMove (r, c) (nr, nc) p target None noFlags])
                 else [])
                @ (if enPassant S = Some (nr, nc) then
                     [mkMove (r, c) (nr, nc) p
                        (if col = Some White then Some (CHR ''p'') else Some (CHR ''P''))
                        None (noFlags\<lparr>enpassant := True\<rparr>)]
                   else []))
             else [])) [-1, 1]))"

text \<open>One step target of a knight or king: an empty square, or a capture of an enemy piece.\<close>

definition stepMoves :: "board \<Rightarrow> int \<Rightarrow> int \<Rightarrow> (int \<times> int) list \<Rightarrow> move list" where
  "stepMoves b r c deltas =
     (let p = cellAt b r c; enemy = enemyOf (pieceColor p) in
      concat (map (\<lambda>(dr, dc).
        (let nr = r + dr; nc = c + dc in
         if \<not> onBoard nr nc then []
         else (let t = cellAt b nr nc in
               if t = None then [mkMove (r, c) (nr, nc) p None None noFlags]
               else if pieceColor t = Some enemy then [mkMove (r, c) (nr, nc) p t None noFlags]
               else []))) deltas))"

definition knightMoves :: "position \<Rightarrow> int \<Rightarrow> int \<Rightarrow> move list" where
  "knightMoves S r c = stepMoves (board S) r c knightDeltas"

text \<open>The inner \<open>while\<close> loop of \<open>slidingMoves\<close> for one direction.\<close>

function slideRay :: "board \<Rightarrow> int \<Rightarrow> int \<Rightarrow> cell \<Rightarrow> color \<Rightarrow> int \<Rightarrow> int \<Rightarrow> int \<Rightarrow> int \<Rightarrow> move list" where
  "slideRay b r c p enemy nr nc dr dc =
     (if onBoard nr nc \<and> (dr, dc) \<noteq> (0, 0) then
        (let t = cellAt b nr nc in
         if t = None then
           mkMove (r, c) (nr, nc) p None None noFlags
             # slideRay b r c p enemy (nr + dr) (nc + dc) dr dc
         else if pieceColor t = Some enemy then [mkMove (r, c) (nr, nc) p t None noFlags]
         else [])
      else [])"
  by pat_completeness auto
termination
  by (relation "measure (\<lambda>(b, r, c, p, e, nr, nc, dr, dc).
        if dr > 0 then nat (8 - nr) else if dr < 0 then nat (nr + 1)
        else if dc > 0 then nat (8 - nc) else nat (nc + 1))")
     (auto simp: onBoard_def)

declare slideRay.simps [simp del]

definition slidingMoves :: "position \<Rightarrow> int \<Rightarrow> int \<Rightarrow> (int \<times> int) list \<Rightarrow> move list" where
  "slidingMoves S r c dirs =
     (let b = board S; p = cellAt b r c; enemy = enemyOf (pieceColor p) in
      concat (map (\<lambda>(dr, dc). slideRay b r c p enemy (r + dr) (c + dc) dr dc) dirs))"

definition castleMove :: "int \<Rightarrow> int \<Rightarrow> cell \<Rightarrow> char \<Rightarrow> move" where
  "castleMove row tc p side =
     mkMove (row, 4) (row, tc) p None None (noFlags\<lparr>castle := Some side\<rparr>)"

definition kingMoves :: "position \<Rightarrow> int \<Rightarrow> int \<Rightarrow> move list" where
  "kingMoves S r c =
     (let b = board S;
          p = cellAt b r c;
          col = pieceColor p;
          enemy = enemyOf col
      in stepMoves b r c kingDeltas
       @ (if col = Some White \<and> r = 7 \<and> c = 4 then
            (if wK (castling S) \<and> cellAt b 7 5 = None \<and> cellAt b 7 6 = None
                \<and> \<not> isSquareAttacked S 7 4 enemy \<and> \<not> isSquareAttacked S 7 5 enemy
                \<and> \<not> isSquareAttacked S 7 6 enemy
             then [castleMove 7 6 p (CHR ''K'')] else [])
            @ (if wQ (castling S) \<and> cellAt b 7 3 = None \<and> cellAt b 7 2 = None
                  \<and> cellAt b 7 1 = None
                  \<and> \<not> isSquareAttacked S 7 4 enemy \<and> \<not> isSquareAttacked S 7 3 enemy
                  \<and> \<not> isSquareAttacked S 7 2 enemy
               then [castleMove 7 2 p (CHR ''Q'')] else [])
          else [])
       @ (if col = Some Black \<and> r = 0 \<and> c = 4 then
            (if bK (castling S) \<and> cellAt b 0 5 = None \<and> cellAt b 0 6 = None
                \<and> \<not> isSquareAttacked S 0 4 enemy \<and> \<not> isSquareAttacked S 0 5 enemy
                \<and> \<not> isSquareAttacked S 0 6 enemy
             then [castleMove 0 6 p (CHR ''K'')] else [])
            @ (if bQ (castling S) \<and> cellAt b 0 3 = None \<and> cellAt b 0 2 = None
                  \<and> cellAt b 0 1 = None
                  \<and> \<not> isSquareAttacked S 0 4 enemy \<and> \<not> isSquareAttacked S 0 3 enemy
                  \<and> \<not> isSquareAttacked S 0 2 enemy
               then [castleMove 0 2 p (CHR ''Q'')] else [])
          else []))"

definition movesFrom :: "position \<Rightarrow> int \<Rightarrow> int \<Rightarrow> move list" where
  "movesFrom S r c =
     (let p = cellAt (board S) r c in
      if p = None then []
      else if pieceColor p \<noteq> Some (activeColor S) then []
      else (let t = lower p in
            if t = Some (CHR ''p'') then pawnMoves S r c
            else if t = Some (CHR ''n'') then knightMoves S r c
            else if t = Some (CHR ''b'') then slidingMoves S r c diagDirs
            else if t = Some (CHR ''r'') then slidingMoves S r c straightDirs
            else if t = Some (CHR ''q'') then slidingMoves S r c (diagDirs @ straightDirs)
            else if t = Some (CHR ''k'') then kingMoves S r c
            else []))"

definition generatePseudoLegalMoves :: "position \<Rightarrow> move list" where
  "generatePseudoLegalMoves S =
     concat (map (\<lambda>r. concat (map (\<lambda>c. movesFrom S r c) range8)) range8)"

section \<open>Move execution\<close>

definition incr :: "jsnum \<Rightarrow> jsnum" where
  "incr x = (case x of NaN \<Rightarrow> NaN | Num n \<Rightarrow> Num (n + 1))"

text \<open>
  \<open>doMove\<close> mutates \<open>S\<close> in place; here it returns the new position.  It performs no check
  of its own: the move is one the generator produced, with both squares on the board.
  The body of the source has four parts, each a function here: the squares of the board,
  the castling rights, the en-passant target, and the clocks with the side to move.
  \<open>pc\<close> is \<open>piece\<close>, the content of the source square read before anything is written.
\<close>

definition boardAfter :: "board \<Rightarrow> move \<Rightarrow> board" where
  "boardAfter b0 m =
     (case from_sq m of (fr, fc) \<Rightarrow> case to_sq m of (tr, tc) \<Rightarrow>
      (let pc = cellAt b0 fr fc;
           b1 = setCell b0 fr fc None;
           b2 = (if enpassant (flags m) then setCell b1 fr tc None else b1)
       in if castle (flags m) \<noteq> None then
            (if castle (flags m) = Some (CHR ''K'') then
               (let c1 = setCell b2 tr tc pc;
                    c2 = setCell c1 tr 5 (cellAt c1 tr 7)
                in setCell c2 tr 7 None)
             else if castle (flags m) = Some (CHR ''Q'') then
               (let c1 = setCell b2 tr tc pc;
                    c2 = setCell c1 tr 3 (cellAt c1 tr 0)
                in setCell c2 tr 0 None)
             else b2)
          else
            (case promotion m of
               Some promo \<Rightarrow>
                 (let isWhite = (pc = map_option toUpperCase pc);
                      promoChar = (if isWhite then toUpperCase promo else toLowerCase promo)
                  in setCell b2 tr tc (Some promoChar))
             | None \<Rightarrow> setCell b2 tr tc pc)))"

text \<open>The four tests on a corner square, for a rook that leaves it or is captured on it.\<close>

definition clearRookRights :: "castlingRights \<Rightarrow> int \<Rightarrow> int \<Rightarrow> castlingRights" where
  "clearRookRights cr r c =
     (let d1 = (if r = 7 \<and> c = 0 then cr\<lparr>wQ := False\<rparr> else cr);
          d2 = (if r = 7 \<and> c = 7 then d1\<lparr>wK := False\<rparr> else d1);
          d3 = (if r = 0 \<and> c = 0 then d2\<lparr>bQ := False\<rparr> else d2)
      in (if r = 0 \<and> c = 7 then d3\<lparr>bK := False\<rparr> else d3))"

definition castlingAfter :: "castlingRights \<Rightarrow> cell \<Rightarrow> move \<Rightarrow> castlingRights" where
  "castlingAfter cr0 pc m =
     (case from_sq m of (fr, fc) \<Rightarrow> case to_sq m of (tr, tc) \<Rightarrow>
      (let cr1 = (if lower pc = Some (CHR ''k'') then
                    (if pc = map_option toUpperCase pc then cr0\<lparr>wK := False, wQ := False\<rparr>
                     else cr0\<lparr>bK := False, bQ := False\<rparr>)
                  else cr0);
           cr2 = (if lower pc = Some (CHR ''r'') then clearRookRights cr1 fr fc else cr1)
       in if capture m \<noteq> None \<and> lower (capture m) = Some (CHR ''r'')
          then clearRookRights cr2 tr tc else cr2))"

definition enPassantAfter :: "cell \<Rightarrow> move \<Rightarrow> square option" where
  "enPassantAfter pc m =
     (case from_sq m of (fr, fc) \<Rightarrow> case to_sq m of (tr, tc) \<Rightarrow>
      if lower pc = Some (CHR ''p'') \<and> \<bar>tr - fr\<bar> = 2
      then Some ((fr + tr) div 2, fc) else None)"

definition doMove :: "position \<Rightarrow> move \<Rightarrow> position" where
  "doMove S m =
     (let pc = cellAt (board S) (fst (from_sq m)) (snd (from_sq m)) in
      \<lparr>board = boardAfter (board S) m,
       activeColor = oppositeColor (activeColor S),
       castling = castlingAfter (castling S) pc m,
       enPassant = enPassantAfter pc m,
       halfmove = (if lower pc = Some (CHR ''p'') \<or> capture m \<noteq> None then Num 0
                   else incr (halfmove S)),
       fullmove = (if activeColor S = Black then incr (fullmove S) else fullmove S)\<rparr>)"

section \<open>Legal moves\<close>

definition kingChar :: "color \<Rightarrow> char" where
  "kingChar col = (if col = White then CHR ''K'' else CHR ''k'')"

text \<open>The squares in the order of the nested loops \<open>for r\<close>, \<open>for c\<close>.\<close>

definition allSquares :: "square list" where
  "allSquares = concat (map (\<lambda>r. map (\<lambda>c. (r, c)) range8) range8)"

text \<open>\<open>findKing\<close> scans rows 0..7 and, in each, columns 0..7, and returns the first hit.\<close>

definition findKing :: "position \<Rightarrow> color \<Rightarrow> square option" where
  "findKing S col =
     (case filter (\<lambda>(r, c). cellAt (board S) r c = Some (kingChar col)) allSquares of
        [] \<Rightarrow> None
      | sq # _ \<Rightarrow> Some sq)"

definition keepsKingSafe :: "position \<Rightarrow> move \<Rightarrow> bool" where
  "keepsKingSafe S m =
     (let S2 = doMove (cloneState S) m;
          mover = oppositeColor (activeColor S2)
      in case findKing S2 mover of
           None \<Rightarrow> False
         | Some (kr, kc) \<Rightarrow> \<not> isSquareAttacked S2 kr kc (activeColor S2))"

definition generateLegalMoves :: "position \<Rightarrow> move list" where
  "generateLegalMoves S = filter (keepsKingSafe S) (generatePseudoLegalMoves S)"

section \<open>FEN parsing\<close>

text \<open>
  Text is a list of characters, each one UTF-16 code unit below 256.  White space
  (\<open>\s\<close> of a regular expression, and what \<open>trim\<close> removes) is, in that range, the
  characters 9 to 13, the blank and the no-break space.
\<close>

definition isSpace :: "char \<Rightarrow> bool" where
  "isSpace ch = (ch \<in> set [CHR 0x09, CHR 0x0A, CHR 0x0B, CHR 0x0C, CHR 0x0D, CHR 0x20, CHR 0xA0])"

definition trim :: "string \<Rightarrow> string" where
  "trim s = rev (dropWhile isSpace (rev (dropWhile isSpace s)))"

text \<open>\<open>s.split(/\s+/)\<close>: every maximal run of white space separates two parts.\<close>

function splitWs :: "string \<Rightarrow> string list" where
  "splitWs [] = [[]]"
| "splitWs (ch # cs) =
     (if isSpace ch then [] # splitWs (dropWhile isSpace cs)
      else (case splitWs cs of [] \<Rightarrow> [[ch]] | t # ts \<Rightarrow> (ch # t) # ts))"
  by pat_completeness auto
termination
  by (relation "measure length") (auto simp: less_Suc_eq_le length_dropWhile_le)

text \<open>\<open>s.split("/")\<close> and the like: every occurrence of the separator separates two parts.\<close>

primrec splitChar :: "char \<Rightarrow> string \<Rightarrow> string list" where
  "splitChar sep [] = [[]]"
| "splitChar sep (ch # cs) =
     (if ch = sep then [] # splitChar sep cs
      else (case splitChar sep cs of [] \<Rightarrow> [[ch]] | t # ts \<Rightarrow> (ch # t) # ts))"

datatype fenError =
    FieldCount
  | RankCount
  | TooManySquares nat
  | UnexpectedChar char
  | RankNotFilled nat
  | BadActiveColor
  | BadEnPassant

definition pieceChars :: "char list" where
  "pieceChars = ''prnbqkPRNBQK''"

definition digits18 :: "char list" where
  "digits18 = ''12345678''"

definition isDigit :: "char \<Rightarrow> bool" where
  "isDigit ch = (ch \<in> set ''0123456789'')"

definition digitVal :: "char \<Rightarrow> nat" where
  "digitVal ch = of_char ch - 48"

text \<open>
  The inner loop of \<open>parseFEN\<close> over the characters of rank \<open>r\<close>, with the running
  \<open>fileIndex\<close> and the row of the new board filled so far.
\<close>

fun parseRank :: "nat \<Rightarrow> string \<Rightarrow> nat \<Rightarrow> cell list \<Rightarrow> fenError + (nat \<times> cell list)" where
  "parseRank r [] fileIndex row = Inr (fileIndex, row)"
| "parseRank r (ch # cs) fileIndex row =
     (if ch \<in> set digits18 then parseRank r cs (fileIndex + digitVal ch) row
      else if ch \<in> set pieceChars then
        (if fileIndex \<ge> 8 then Inl (TooManySquares (8 - r))
         else parseRank r cs (fileIndex + 1) (row[fileIndex := Some ch]))
      else Inl (UnexpectedChar ch))"

text \<open>The outer loop \<open>for (let r = 0; r < 8; r++)\<close> over the ranks still to be read.\<close>

fun parseRanks :: "nat \<Rightarrow> string list \<Rightarrow> fenError + board" where
  "parseRanks r [] = Inr []"
| "parseRanks r (rankStr # rest) =
     (case parseRank r rankStr 0 (replicate 8 None) of
        Inl e \<Rightarrow> Inl e
      | Inr (fileIndex, row) \<Rightarrow>
          if fileIndex \<noteq> 8 then Inl (RankNotFilled (8 - r))
          else (case parseRanks (r + 1) rest of
                  Inl e \<Rightarrow> Inl e
                | Inr rows \<Rightarrow> Inr (row # rows)))"

definition filesStr :: string where
  "filesStr = ''abcdefgh''"

text \<open>
  \<open>Number(s)\<close> is \<open>NaN\<close> unless the trimmed text is empty or a numeric literal of the
  language: a hexadecimal, octal or binary integer with its prefix, or an optionally
  signed \<open>Infinity\<close> or decimal number with optional fraction and exponent.
\<close>

definition isExponentPart :: "string \<Rightarrow> bool" where
  "isExponentPart s =
     (case s of [] \<Rightarrow> False
      | e # r \<Rightarrow> (e = CHR ''e'' \<or> e = CHR ''E'')
          \<and> (let ds = (case r of [] \<Rightarrow> []
                        | sg # r' \<Rightarrow> if sg = CHR ''+'' \<or> sg = CHR ''-'' then r' else r)
             in ds \<noteq> [] \<and> list_all isDigit ds))"

definition isUnsignedDecimal :: "string \<Rightarrow> bool" where
  "isUnsignedDecimal s =
     (s = ''Infinity'' \<or>
      (let ip = takeWhile isDigit s; r1 = dropWhile isDigit s in
       case r1 of
         [] \<Rightarrow> ip \<noteq> []
       | d # r2 \<Rightarrow>
           if d = CHR ''.'' then
             (let fp = takeWhile isDigit r2; r3 = dropWhile isDigit r2 in
              (ip \<noteq> [] \<or> fp \<noteq> []) \<and> (r3 = [] \<or> isExponentPart r3))
           else ip \<noteq> [] \<and> isExponentPart r1))"

definition isRadixLiteral :: "string \<Rightarrow> bool" where
  "isRadixLiteral s =
     (case s of
        z # x # ds \<Rightarrow>
          z = CHR ''0'' \<and> ds \<noteq> [] \<and>
          (if x = CHR ''x'' \<or> x = CHR ''X'' then list_all (\<lambda>d. d \<in> set ''0123456789abcdefABCDEF'') ds
           else if x = CHR ''o'' \<or> x = CHR ''O'' then list_all (\<lambda>d. d \<in> set ''01234567'') ds
           else if x = CHR ''b'' \<or> x = CHR ''B'' then list_all (\<lambda>d. d \<in> set ''01'') ds
           else False)
      | _ \<Rightarrow> False)"

definition numberIsNaN :: "string \<Rightarrow> bool" where
  "numberIsNaN s =
     (let t = trim s in
      \<not> (t = [] \<or> isRadixLiteral t
         \<or> isUnsignedDecimal (case t of [] \<Rightarrow> []
              | sg # r \<Rightarrow> if sg = CHR ''+'' \<or> sg = CHR ''-'' then r else t)))"

text \<open>
  \<open>parseInt(s, 10)\<close>: skip leading white space and one sign, then read the longest run
  of decimal digits; \<open>NaN\<close> when that run is empty.  The value is the exact integer
  here; the source holds the nearest double, which differs above \<open>2^53\<close>.  No statement
  below depends on the value read from a digit run.
\<close>

definition decimalValue :: "string \<Rightarrow> int" where
  "decimalValue ds = foldl (\<lambda>acc d. 10 * acc + int (digitVal d)) 0 ds"

definition parseInt10 :: "string \<Rightarrow> jsnum" where
  "parseInt10 s =
     (let t = dropWhile isSpace s;
          neg = (t \<noteq> [] \<and> hd t = CHR ''-'');
          u = (case t of [] \<Rightarrow> []
               | sg # r \<Rightarrow> if sg = CHR ''+'' \<or> sg = CHR ''-'' then r else t);
          ds = takeWhile isDigit u
      in if ds = [] then NaN
         else Num (if neg then - decimalValue ds else decimalValue ds))"

definition parseClock :: "string \<Rightarrow> int \<Rightarrow> jsnum" where
  "parseClock field fallback = (if numberIsNaN field then Num fallback else parseInt10 field)"

text \<open>The test \<open>/^[a-h][36]$/\<close> on the en-passant field.\<close>

definition isEnPassantSquare :: "string \<Rightarrow> bool" where
  "isEnPassantSquare s =
     (case s of
        [f, k] \<Rightarrow> f \<in> set filesStr \<and> (k = CHR ''3'' \<or> k = CHR ''6'')
      | _ \<Rightarrow> False)"

definition parseFEN :: "string \<Rightarrow> fenError + position" where
  "parseFEN fenString =
     (let fenParts = splitWs (trim fenString) in
      if length fenParts \<noteq> 6 then Inl FieldCount
      else
        (let piecePlacement = fenParts ! 0;
             activeColorField = fenParts ! 1;
             castlingField = fenParts ! 2;
             enPassantField = fenParts ! 3;
             halfmoveClock = fenParts ! 4;
             fullmoveNumber = fenParts ! 5;
             ranks = splitChar (CHR ''/'') piecePlacement
         in
           if length ranks \<noteq> 8 then Inl RankCount
           else
             (case parseRanks 0 ranks of
                Inl e \<Rightarrow> Inl e
              | Inr newBoard \<Rightarrow>
                  if activeColorField \<noteq> ''w'' \<and> activeColorField \<noteq> ''b'' then Inl BadActiveColor
                  else
                    (let newCastling =
                           \<lparr>wK = CHR ''K'' \<in> set castlingField,
                            wQ = CHR ''Q'' \<in> set castlingField,
                            bK = CHR ''k'' \<in> set castlingField,
                            bQ = CHR ''q'' \<in> set castlingField\<rparr>
                     in
                       if enPassantField \<noteq> ''-'' \<and> \<not> isEnPassantSquare enPassantField
                       then Inl BadEnPassant
                       else
                         Inr \<lparr>board = newBoard,
                              activeColor = (if activeColorField = ''w'' then White else Black),
                              castling = newCastling,
                              enPassant =
                                (if enPassantField = ''-'' then None
                                 else Some (8 - int (digitVal (enPassantField ! 1)),
                                            int (of_char (enPassantField ! 0) - (97 :: nat)))),
                              halfmove = parseClock halfmoveClock 0,
                              fullmove = parseClock fullmoveNumber 1\<rparr>))))"

definition START_FEN :: string where
  "START_FEN = ''rnbqkbnr/pppppppp/8/8/8/8/PPPPPPPP/RNBQKBNR w KQkq - 0 1''"

section \<open>Position key\<close>

definition digitChar :: "nat \<Rightarrow> char" where
  "digitChar n = ''0123456789'' ! n"

text \<open>The decimal text of a number that holds a natural number, or an integer.\<close>

fun showNat :: "nat \<Rightarrow> string" where
  "showNat n = (if n < 10 then [digitChar n] else showNat (n div 10) @ [digitChar (n mod 10)])"

declare showNat.simps [simp del]

definition showInt :: "int \<Rightarrow> string" where
  "showInt i = (if i < 0 then CHR ''-'' # showNat (nat (- i)) else showNat (nat i))"

text \<open>The loop over the cells of one row, with the text \<open>out\<close> and the count \<open>empty\<close>
  (here \<open>emp\<close>).\<close>

fun rowKey :: "cell list \<Rightarrow> string \<Rightarrow> nat \<Rightarrow> string" where
  "rowKey [] out emp = (if emp > 0 then out @ showNat emp else out)"
| "rowKey (cl # cells) out emp =
     (case cl of
        None \<Rightarrow> rowKey cells out (emp + 1)
      | Some ch \<Rightarrow> rowKey cells ((if emp > 0 then out @ showNat emp else out) @ [ch]) 0)"

fun joinWith :: "string \<Rightarrow> string list \<Rightarrow> string" where
  "joinWith sep [] = []"
| "joinWith sep [x] = x"
| "joinWith sep (x # y # zs) = x @ sep @ joinWith sep (y # zs)"

definition colorText :: "color \<Rightarrow> string" where
  "colorText c = (if c = White then ''w'' else ''b'')"

text \<open>
  \<open>filesStr[c] + (8 - r)\<close>: a column outside the text gives \<open>undefined\<close>, and
  \<open>undefined\<close> plus a number is \<open>NaN\<close>.
\<close>

definition enPassantText :: "square option \<Rightarrow> string" where
  "enPassantText ep =
     (case ep of
        None \<Rightarrow> ''-''
      | Some (r, c) \<Rightarrow>
          if 0 \<le> c \<and> c < 8 then (filesStr ! nat c) # showInt (8 - r) else ''NaN'')"

definition positionKey :: "position \<Rightarrow> string" where
  "positionKey S =
     (let rows = joinWith ''/'' (map (\<lambda>row. rowKey row [] 0) (board S));
          side = colorText (activeColor S);
          cast = (if wK (castling S) then ''K'' else [])
               @ (if wQ (castling S) then ''Q'' else [])
               @ (if bK (castling S) then ''k'' else [])
               @ (if bQ (castling S) then ''q'' else []);
          castStr = (if cast = [] then ''-'' else cast);
          ep = enPassantText (enPassant S)
      in rows @ '' '' @ side @ '' '' @ castStr @ '' '' @ ep)"

section \<open>Evaluation\<close>

text \<open>
  Scores are JavaScript numbers: \<open>-Infinity\<close>, \<open>Infinity\<close> or a finite value.  The weights
  of the genome are floating-point numbers; they are rationals here, and the rounding of
  the products is not modelled (with the default genome, 1.0 and 0.5, every value is a
  multiple of one half and exact).
\<close>

datatype score = NegInf | Fin rat | PosInf

fun scoreLess :: "score \<Rightarrow> score \<Rightarrow> bool" where
  "scoreLess PosInf _ = False"
| "scoreLess _ NegInf = False"
| "scoreLess NegInf _ = True"
| "scoreLess _ PosInf = True"
| "scoreLess (Fin x) (Fin y) = (x < y)"

definition scoreMax :: "score \<Rightarrow> score \<Rightarrow> score" where
  "scoreMax a b = (if scoreLess a b then b else a)"

definition scoreMin :: "score \<Rightarrow> score \<Rightarrow> score" where
  "scoreMin a b = (if scoreLess b a then b else a)"

record genome =
  materialWeight :: rat
  positionalWeight :: rat

definition getDefaultGenome :: genome where
  "getDefaultGenome = \<lparr>materialWeight = 1, positionalWeight = 1 / 2\<rparr>"

definition PIECE_VALUES :: "(char \<times> int) list" where
  "PIECE_VALUES =
     [(CHR ''p'', -100), (CHR ''n'', -320), (CHR ''b'', -330), (CHR ''r'', -500),
      (CHR ''q'', -900), (CHR ''k'', 0),
      (CHR ''P'', 100), (CHR ''N'', 320), (CHR ''B'', 330), (CHR ''R'', 500),
      (CHR ''Q'', 900), (CHR ''K'', 0)]"

text \<open>The table is read only at the twelve piece letters.\<close>

definition pieceValue :: "char \<Rightarrow> int" where
  "pieceValue ch = (case map_of PIECE_VALUES ch of Some v \<Rightarrow> v | None \<Rightarrow> 0)"

definition materialOf :: "board \<Rightarrow> int" where
  "materialOf b =
     foldl (\<lambda>material (r, c).
        case cellAt b r c of None \<Rightarrow> material | Some ch \<Rightarrow> material + pieceValue ch)
       0 allSquares"

definition positionalOf :: "board \<Rightarrow> int" where
  "positionalOf b =
     foldl (\<lambda>positional (r, c).
        (let pc = cellAt b r c in
         if pc \<noteq> None \<and> lower pc = Some (CHR ''p'') then
           (let baseRank = (if pc = Some (CHR ''P'') then 6 else 1);
                advancement = \<bar>r - baseRank\<bar>
            in positional + (if pc = Some (CHR ''P'') then advancement else - advancement) * 5)
         else positional))
       0 allSquares"

text \<open>
  \<open>evaluate\<close> stores a report in \<open>this.evalDetails\<close> and returns its total.  The report is
  the value of \<open>evaluateDetails\<close> (without the text of the log line).
\<close>

record evalDetails =
  material :: int
  positional :: int
  total :: score

definition evaluateDetails :: "genome \<Rightarrow> position \<Rightarrow> evalDetails" where
  "evaluateDetails g S =
     (let legalMoves = generateLegalMoves S in
      case findKing S (activeColor S) of
        None \<Rightarrow>
          \<lparr>material = 0, positional = 0,
           total = (if activeColor S = White then NegInf else PosInf)\<rparr>
      | Some (kr, kc) \<Rightarrow>
          (let inCheck = isSquareAttacked S kr kc (oppositeColor (activeColor S)) in
           if legalMoves = [] \<and> inCheck then
             \<lparr>material = 0, positional = 0,
              total = (if activeColor S = White then Fin (- 100000) else Fin 100000)\<rparr>
           else if legalMoves = [] \<and> \<not> inCheck then
             \<lparr>material = 0, positional = 0, total = Fin 0\<rparr>
           else
             (let mat = materialOf (board S);
                  pos = positionalOf (board S);
                  sc = 0 + of_int mat * materialWeight g + of_int pos * positionalWeight g
              in \<lparr>material = mat, positional = pos, total = Fin sc\<rparr>)))"

definition evaluate :: "genome \<Rightarrow> position \<Rightarrow> score" where
  "evaluate g S = total (evaluateDetails g S)"

section \<open>Search\<close>

text \<open>
  \<open>minimax\<close> returns \<open>{score, sequence}\<close> and counts the visited nodes and the cut-offs
  in two fields of the engine, which are threaded through here.
\<close>

record result =
  score :: score
  sequence :: "move list"

record counters =
  searchPositions :: nat
  pruned :: nat

type_synonym searchFn =
  "position \<Rightarrow> score \<Rightarrow> score \<Rightarrow> move list \<Rightarrow> counters \<Rightarrow> result \<times> counters"

text \<open>
  The loop of a maximizing node over the legal moves still to be tried; \<open>rec\<close> is the
  call of \<open>minimax\<close> at \<open>depth - 1\<close> for the other side.
\<close>

fun maxLoop ::
  "searchFn \<Rightarrow> position \<Rightarrow> move list \<Rightarrow> move list \<Rightarrow> score \<Rightarrow> score \<Rightarrow> score \<Rightarrow> move list
     \<Rightarrow> counters \<Rightarrow> result \<times> counters" where
  "maxLoop rec st [] sq alpha beta bestScore bestSeq cn =
     (\<lparr>score = bestScore, sequence = bestSeq\<rparr>, cn)"
| "maxLoop rec st (mv # mvs) sq alpha beta bestScore bestSeq cn =
     (let next = doMove (cloneState st) mv;
          (res, cn1) = rec next alpha beta (sq @ [mv]) cn;
          better = scoreLess bestScore (score res);
          bestScore1 = (if better then score res else bestScore);
          bestSeq1 = (if better then sequence res else bestSeq);
          alpha1 = scoreMax alpha (score res)
      in if \<not> scoreLess alpha1 beta then
           (\<lparr>score = bestScore1, sequence = bestSeq1\<rparr>, cn1\<lparr>pruned := pruned cn1 + 1\<rparr>)
         else maxLoop rec st mvs sq alpha1 beta bestScore1 bestSeq1 cn1)"

fun minLoop ::
  "searchFn \<Rightarrow> position \<Rightarrow> move list \<Rightarrow> move list \<Rightarrow> score \<Rightarrow> score \<Rightarrow> score \<Rightarrow> move list
     \<Rightarrow> counters \<Rightarrow> result \<times> counters" where
  "minLoop rec st [] sq alpha beta bestScore bestSeq cn =
     (\<lparr>score = bestScore, sequence = bestSeq\<rparr>, cn)"
| "minLoop rec st (mv # mvs) sq alpha beta bestScore bestSeq cn =
     (let next = doMove (cloneState st) mv;
          (res, cn1) = rec next alpha beta (sq @ [mv]) cn;
          better = scoreLess (score res) bestScore;
          bestScore1 = (if better then score res else bestScore);
          bestSeq1 = (if better then sequence res else bestSeq);
          beta1 = scoreMin beta (score res)
      in if \<not> scoreLess alpha beta1 then
           (\<lparr>score = bestScore1, sequence = bestSeq1\<rparr>, cn1\<lparr>pruned := pruned cn1 + 1\<rparr>)
         else minLoop rec st mvs sq alpha beta1 bestScore1 bestSeq1 cn1)"

text \<open>
  \<open>minimax(state, depth, alpha, beta, isMaximizing, originalSide, sequence)\<close>; the depth
  is a natural number and comes first, since the recursion is on it.
\<close>

primrec minimax ::
  "nat \<Rightarrow> genome \<Rightarrow> position \<Rightarrow> score \<Rightarrow> score \<Rightarrow> bool \<Rightarrow> bool \<Rightarrow> move list \<Rightarrow> counters
     \<Rightarrow> result \<times> counters" where
  "minimax 0 g st alpha beta isMaximizing originalSide sq cn =
     (\<lparr>score = evaluate g st, sequence = sq\<rparr>,
      cn\<lparr>searchPositions := searchPositions cn + 1\<rparr>)"
| "minimax (Suc d) g st alpha beta isMaximizing originalSide sq cn =
     (let cn0 = cn\<lparr>searchPositions := searchPositions cn + 1\<rparr>;
          moves = generateLegalMoves st;
          king = findKing st (activeColor st)
      in
        if moves = [] then
          (case king of
             None \<Rightarrow> (\<lparr>score = (if originalSide then NegInf else PosInf), sequence = sq\<rparr>, cn0)
           | Some (kr, kc) \<Rightarrow>
               if isSquareAttacked st kr kc (oppositeColor (activeColor st)) then
                 (\<lparr>score = (if activeColor st = White then Fin (- 100000) else Fin 100000),
                   sequence = sq\<rparr>, cn0)
               else (\<lparr>score = Fin 0, sequence = sq\<rparr>, cn0))
        else if isMaximizing then
          maxLoop (\<lambda>next a b s c. minimax d g next a b False originalSide s c)
            st moves sq alpha beta NegInf [] cn0
        else
          minLoop (\<lambda>next a b s c. minimax d g next a b True originalSide s c)
            st moves sq alpha beta PosInf [] cn0)"

section \<open>The session and draw detection\<close>

record session =
  state :: position
  moveHistory :: "move list"
  positionHistory :: "string list"
  genomeOf :: genome

text \<open>The constructor: it throws what \<open>parseFEN\<close> throws.\<close>

definition newEngine :: "string \<Rightarrow> genome \<Rightarrow> fenError + session" where
  "newEngine fen g =
     (case parseFEN fen of
        Inl e \<Rightarrow> Inl e
      | Inr S \<Rightarrow> Inr \<lparr>state = S, moveHistory = [], positionHistory = [positionKey S],
                     genomeOf = g\<rparr>)"

definition makeMove :: "session \<Rightarrow> move \<Rightarrow> session" where
  "makeMove e m =
     (let S1 = doMove (state e) m in
      e\<lparr>state := S1, moveHistory := moveHistory e @ [m],
        positionHistory := positionHistory e @ [positionKey S1]\<rparr>)"

definition isFiftyMoveDraw :: "position \<Rightarrow> bool" where
  "isFiftyMoveDraw S = (case halfmove S of NaN \<Rightarrow> False | Num n \<Rightarrow> n \<ge> 100)"

definition isThreefoldRepetition :: "session \<Rightarrow> bool" where
  "isThreefoldRepetition e =
     (let key = positionKey (state e);
          count = foldl (\<lambda>cnt k. if k = key then cnt + 1 else cnt) (0 :: nat) (positionHistory e)
      in count \<ge> 3)"

record tally =
  pawns :: nat
  rooks :: nat
  queens :: nat
  bishops :: nat
  knights :: nat
  bishopSquares :: "int list"

definition tallyStep :: "board \<Rightarrow> tally \<Rightarrow> square \<Rightarrow> tally" where
  "tallyStep b t sq =
     (case sq of (r, c) \<Rightarrow>
        (let p = cellAt b r c in
         if p = None then t
         else (let k = lower p in
               if k = Some (CHR ''p'') then t\<lparr>pawns := pawns t + 1\<rparr>
               else if k = Some (CHR ''r'') then t\<lparr>rooks := rooks t + 1\<rparr>
               else if k = Some (CHR ''q'') then t\<lparr>queens := queens t + 1\<rparr>
               else if k = Some (CHR ''b'') then
                 t\<lparr>bishops := bishops t + 1, bishopSquares := bishopSquares t @ [(r + c) mod 2]\<rparr>
               else if k = Some (CHR ''n'') then t\<lparr>knights := knights t + 1\<rparr>
               else t)))"

definition isInsufficientMaterial :: "position \<Rightarrow> bool" where
  "isInsufficientMaterial S =
     (let t = foldl (tallyStep (board S))
                \<lparr>pawns = 0, rooks = 0, queens = 0, bishops = 0, knights = 0, bishopSquares = []\<rparr>
                allSquares
      in if pawns t > 0 \<or> rooks t > 0 \<or> queens t > 0 then False
         else (let minor = bishops t + knights t in
               if minor = 0 then True
               else if minor = 1 then True
               else if minor = 2 then
                 (if knights t = 2 then True
                  else if bishops t = 2 then
                    (if list_all (\<lambda>p. p = hd (bishopSquares t)) (bishopSquares t) then True
                     else False)
                  else False)
               else False))"

section \<open>Well-formed and reachable positions\<close>

definition wf_board :: "board \<Rightarrow> bool" where
  "wf_board b = (length b = 8 \<and> list_all (\<lambda>row. length row = 8) b)"

definition pieceCell :: "cell \<Rightarrow> bool" where
  "pieceCell cl = (case cl of None \<Rightarrow> True | Some ch \<Rightarrow> ch \<in> set pieceChars)"

definition wf_enPassant :: "square option \<Rightarrow> bool" where
  "wf_enPassant ep =
     (case ep of None \<Rightarrow> True | Some (r, c) \<Rightarrow> (r = 2 \<or> r = 5) \<and> 0 \<le> c \<and> c < 8)"

definition wf_position :: "position \<Rightarrow> bool" where
  "wf_position S =
     (wf_board (board S) \<and> list_all (list_all pieceCell) (board S) \<and> wf_enPassant (enPassant S))"

text \<open>
  The positions a session can hold: the one parsed from the FEN text it was created
  with, and every position that \<open>doMove\<close> makes of a reachable one with one of its
  legal moves.
\<close>

inductive reachable :: "position \<Rightarrow> bool" where
  reachable_init: "parseFEN fen = Inr S \<Longrightarrow> reachable S"
| reachable_step: "reachable S \<Longrightarrow> m \<in> set (generateLegalMoves S) \<Longrightarrow> reachable (doMove S m)"

section \<open>Notions used in the statements\<close>

text \<open>
  The conditions under which a FEN text is malformed, in the words of the
  specification: the fields are the parts of the trimmed text between runs of white
  space; a rank counts one square for each piece letter and \<open>n\<close> squares for a digit
  \<open>n\<close> from 1 to 8; any other character in the placement is unrecognized.
\<close>

definition fenFields :: "string \<Rightarrow> string list" where
  "fenFields s = splitWs (trim s)"

definition recognized :: "char \<Rightarrow> bool" where
  "recognized ch = (ch \<in> set digits18 \<or> ch \<in> set pieceChars)"

definition rankSquares :: "string \<Rightarrow> nat" where
  "rankSquares rk =
     sum_list (map (\<lambda>ch. if ch \<in> set digits18 then digitVal ch
                          else if ch \<in> set pieceChars then 1 else 0) rk)"

definition fenMalformed :: "string \<Rightarrow> bool" where
  "fenMalformed s =
     (let fs = fenFields s; ranks = splitChar (CHR ''/'') (fs ! 0) in
      length fs \<noteq> 6
      \<or> length ranks \<noteq> 8
      \<or> list_ex (\<lambda>rk. rankSquares rk \<noteq> 8) ranks
      \<or> list_ex (\<lambda>rk. list_ex (\<lambda>ch. \<not> recognized ch) rk) ranks
      \<or> (fs ! 1 \<noteq> ''w'' \<and> fs ! 1 \<noteq> ''b'')
      \<or> (fs ! 3 \<noteq> ''-'' \<and> \<not> isEnPassantSquare (fs ! 3)))"

text \<open>
  Counting on the board, for the statement of the material rule: the squares that hold
  a piece of kind \<open>k\<close> (of either colour), their number, and the colours of the squares
  of the bishops (the parity of row plus column).
\<close>

definition kindAt :: "board \<Rightarrow> char \<Rightarrow> square \<Rightarrow> bool" where
  "kindAt b k sq = (lower (cellAt b (fst sq) (snd sq)) = Some k)"

definition countKind :: "board \<Rightarrow> char \<Rightarrow> nat" where
  "countKind b k = length (filter (kindAt b k) allSquares)"

definition bishopColors :: "board \<Rightarrow> int list" where
  "bishopColors b = map (\<lambda>sq. (fst sq + snd sq) mod 2) (filter (kindAt b (CHR ''b'')) allSquares)"

definition noMajorOrPawn :: "board \<Rightarrow> bool" where
  "noMajorOrPawn b =
     (countKind b (CHR ''p'') = 0 \<and> countKind b (CHR ''r'') = 0 \<and> countKind b (CHR ''q'') = 0)"

text \<open>The rule in the words of the specification, read literally.\<close>

definition insufficientAsStated :: "position \<Rightarrow> bool" where
  "insufficientAsStated S =
     (let b = board S in
      noMajorOrPawn b \<and>
      (countKind b (CHR ''b'') + countKind b (CHR ''n'') \<le> 1
       \<or> countKind b (CHR ''n'') = 2
       \<or> (countKind b (CHR ''b'') = 2 \<and> length (remdups (bishopColors b)) \<le> 1)))"

section \<open>Concrete positions and moves\<close>

definition emptyRow :: "cell list" where
  "emptyRow = replicate 8 None"

definition fullRights :: castlingRights where
  "fullRights = \<lparr>wK = True, wQ = True, bK = True, bQ = True\<rparr>"

definition noRights :: castlingRights where
  "noRights = \<lparr>wK = False, wQ = False, bK = False, bQ = False\<rparr>"

definition startPosition :: position where
  "startPosition =
     \<lparr>board = [map Some ''rnbqkbnr'', map Some ''pppppppp'', emptyRow, emptyRow,
               emptyRow, emptyRow, map Some ''PPPPPPPP'', map Some ''RNBQKBNR''],
      activeColor = White, castling = fullRights, enPassant = None,
      halfmove = Num 0, fullmove = Num 1\<rparr>"

definition e2e4 :: move where
  "e2e4 = mkMove (6, 4) (4, 4) (Some (CHR ''P'')) None None (noFlags\<lparr>double := True\<rparr>)"

text \<open>White is mated on the back rank: \<open>6k1/8/8/8/8/8/6PP/4r2K w - - 0 1\<close>.\<close>

definition matedPosition :: position where
  "matedPosition =
     \<lparr>board = [[None, None, None, None, None, None, Some (CHR ''k''), None],
               emptyRow, emptyRow, emptyRow, emptyRow, emptyRow,
               [None, None, None, None, None, None, Some (CHR ''P''), Some (CHR ''P'')],
               [None, None, None, None, Some (CHR ''r''), None, None, Some (CHR ''K'')]],
      activeColor = White, castling = noRights, enPassant = None,
      halfmove = Num 0, fullmove = Num 1\<rparr>"

text \<open>Black, to move, has no king and no piece: \<open>8/8/8/8/8/8/8/4K3 b - - 0 1\<close>.\<close>

definition kinglessPosition :: position where
  "kinglessPosition =
     \<lparr>board = [emptyRow, emptyRow, emptyRow, emptyRow, emptyRow, emptyRow, emptyRow,
               [None, None, None, None, Some (CHR ''K''), None, None, None]],
      activeColor = Black, castling = noRights, enPassant = None,
      halfmove = Num 0, fullmove = Num 1\<rparr>"

definition noCounters :: counters where
  "noCounters = \<lparr>searchPositions = 0, pruned = 0\<rparr>"

text \<open>The en-passant capture onto e3 by the black pawn on file \<open>fc\<close> of the fourth rank.\<close>

definition epCapture :: "int \<Rightarrow> move" where
  "epCapture fc = mkMove (4, fc) (5, 4) (Some (CHR ''p'')) (Some (CHR ''P'')) None
                    (noFlags\<lparr>enpassant := True\<rparr>)"

text \<open>After 1. h3 d5 2. h4 d4:
  \<open>rnbqkbnr/ppp1pppp/8/8/3p3P/8/PPPPPPP1/RNBQKBNR w KQkq - 0 3\<close>.\<close>

definition beforeE4Position :: position where
  "beforeE4Position =
     \<lparr>board = [map Some ''rnbqkbnr'', map Some ''ppp'' @ [None] @ map Some ''pppp'',
               emptyRow, emptyRow,
               [None, None, None, Some (CHR ''p''), None, None, None, Some (CHR ''P'')],
               emptyRow, map Some ''PPPPPPP'' @ [None], map Some ''RNBQKBNR''],
      activeColor = White, castling = fullRights, enPassant = None,
      halfmove = Num 0, fullmove = Num 3\<rparr>"

text \<open>King, two knights and a bishop against the bare king:
  \<open>4k3/8/8/8/8/8/8/1NNBK3 w - - 0 1\<close>.\<close>

definition twoKnightsAndBishop :: position where
  "twoKnightsAndBishop =
     \<lparr>board = [[None, None, None, None, Some (CHR ''k''), None, None, None],
               emptyRow, emptyRow, emptyRow, emptyRow, emptyRow, emptyRow,
               [None, Some (CHR ''N''), Some (CHR ''N''), Some (CHR ''B''), Some (CHR ''K''),
                None, None, None]],
      activeColor = White, castling = noRights, enPassant = None,
      halfmove = Num 0, fullmove = Num 1\<rparr>"

text \<open>Black, to move, has a pawn but no king: \<open>8/4p3/8/8/8/8/8/4K3 b - - 0 1\<close>.\<close>

definition kinglessWithPawn :: position where
  "kinglessWithPawn =
     \<lparr>board = [emptyRow,
               [None, None, None, None, Some (CHR ''p''), None, None, None],
               emptyRow, emptyRow, emptyRow, emptyRow, emptyRow,
               [None, None, None, None, Some (CHR ''K''), None, None, None]],
      activeColor = Black, castling = noRights, enPassant = None,
      halfmove = Num 0, fullmove = Num 1\<rparr>"

text \<open>The king-side castling move of White, as \<open>kingMoves\<close> writes it.\<close>

definition whiteCastleK :: move where
  "whiteCastleK = castleMove 7 6 (Some (CHR ''K'')) (CHR ''K'')"

text \<open>White may castle king-side: \<open>4k3/8/8/8/8/8/8/4K2R w K - 0 1\<close>.\<close>

definition castleReadyPosition :: position where
  "castleReadyPosition =
     \<lparr>board = [[None, None, None, None, Some (CHR ''k''), None, None, None],
               emptyRow, emptyRow, emptyRow, emptyRow, emptyRow, emptyRow,
               [None, None, None, None, Some (CHR ''K''), None, None, Some (CHR ''R'')]],
      activeColor = White, castling = noRights\<lparr>wK := True\<rparr>, enPassant = None,
      halfmove = Num 0, fullmove = Num 1\<rparr>"

text \<open>The starting position with clock fields that are not numbers.\<close>

definition sloppyClockFEN :: string where
  "sloppyClockFEN = ''rnbqkbnr/pppppppp/8/8/8/8/PPPPPPPP/RNBQKBNR w KQkq - x -''"

text \<open>The twenty first moves, in the order in which the generator produces them.\<close>

definition pawnFirstMoves :: "int \<Rightarrow> move list" where
  "pawnFirstMoves c =
     [mkMove (6, c) (5, c) (Some (CHR ''P'')) None None noFlags,
      mkMove (6, c) (4, c) (Some (CHR ''P'')) None None (noFlags\<lparr>double := True\<rparr>)]"

definition knightFirstMove :: "int \<Rightarrow> int \<Rightarrow> move" where
  "knightFirstMove c tc = mkMove (7, c) (5, tc) (Some (CHR ''N'')) None None noFlags"

definition startMoves :: "move list" where
  "startMoves = concat (map pawnFirstMoves range8)
     @ [knightFirstMove 1 2, knightFirstMove 1 0, knightFirstMove 6 7, knightFirstMove 6 5]"

definition replies :: "move \<Rightarrow> nat" where
  "replies m = length (generateLegalMoves (doMove startPosition m))"

section \<open>Auxiliary notions for the proofs\<close>

definition plainMove :: "int \<Rightarrow> int \<Rightarrow> move \<Rightarrow> bool" where
  "plainMove r c m =
     (from_sq m = (r, c) \<and> castle (flags m) = None
      \<and> (promotion m = None \<or> (\<exists>promo \<in> set promoKinds. promotion m = Some promo)))"

text \<open>One rank is read without error and fills eight files.\<close>

definition rankAccepted :: "nat \<Rightarrow> string \<Rightarrow> bool" where
  "rankAccepted r rk =
     (case parseRank r rk 0 (replicate 8 None) of Inl e \<Rightarrow> False | Inr (n, row) \<Rightarrow> n = 8)"

text \<open>The row that the parser has written when it has read the text of the cells.\<close>

fun fillRow :: "cell list \<Rightarrow> nat \<Rightarrow> cell list \<Rightarrow> cell list" where
  "fillRow row pos [] = row"
| "fillRow row pos (None # cells) = fillRow row (pos + 1) cells"
| "fillRow row pos (Some ch # cells) = fillRow (row[pos := Some ch]) (pos + 1) cells"

text \<open>The castling field of the key.\<close>

definition castlingText :: "castlingRights \<Rightarrow> string" where
  "castlingText cr =
     (let cast = (if wK cr then ''K'' else []) @ (if wQ cr then ''Q'' else [])
               @ (if bK cr then ''k'' else []) @ (if bQ cr then ''q'' else [])
      in if cast = [] then ''-'' else cast)"

text \<open>What the generator guarantees about a move from the square \<open>(r, c)\<close>.\<close>

definition generatedShape :: "position \<Rightarrow> int \<Rightarrow> int \<Rightarrow> move \<Rightarrow> bool" where
  "generatedShape S r c m =
     (from_sq m = (r, c)
      \<and> (promotion m = None \<or> (\<exists>promo \<in> set promoKinds. promotion m = Some promo))
      \<and> (castle (flags m) \<noteq> None \<longrightarrow> fst (to_sq m) = 7 \<or> fst (to_sq m) = 0)
      \<and> (lower (cellAt (board S) r c) = Some (CHR ''p'') \<and> \<bar>fst (to_sq m) - r\<bar> = 2 \<longrightarrow>
           (r + fst (to_sq m)) div 2 = 2 \<or> (r + fst (to_sq m)) div 2 = 5))"

section \<open>Evaluation of the letter case\<close>

text \<open>The two conversions on the bits of a character, for evaluation.\<close>

lemma toLowerCase_Char [code]:
  "toLowerCase (Char b0 b1 b2 b3 b4 b5 b6 b7) =
     (if \<not> b7 \<and> b6 \<and> \<not> b5 \<and> (b0 \<or> b1 \<or> b2 \<or> b3 \<or> b4)
         \<and> \<not> (b4 \<and> b3 \<and> (b2 \<or> (b1 \<and> b0)))
      then Char b0 b1 b2 b3 b4 True b6 b7 else Char b0 b1 b2 b3 b4 b5 b6 b7)"
  by (cases b0; cases b1; cases b2; cases b3; cases b4; cases b5; cases b6; cases b7;
      simp add: toLowerCase_def char_of_def bit_Suc_0_iff)

lemma toUpperCase_Char [code]:
  "toUpperCase (Char b0 b1 b2 b3 b4 b5 b6 b7) =
     (if \<not> b7 \<and> b6 \<and> b5 \<and> (b0 \<or> b1 \<or> b2 \<or> b3 \<or> b4)
         \<and> \<not> (b4 \<and> b3 \<and> (b2 \<or> (b1 \<and> b0)))
      then Char b0 b1 b2 b3 b4 False b6 b7 else Char b0 b1 b2 b3 b4 b5 b6 b7)"
  by (cases b0; cases b1; cases b2; cases b3; cases b4; cases b5; cases b6; cases b7;
      simp add: toUpperCase_def char_of_def bit_Suc_0_iff)

section \<open>Basic facts about \<open>doMove\<close>\<close>

lemma oppositeColor_twice: "oppositeColor (oppositeColor c) = c"
  by (cases c) (simp_all add: oppositeColor_def)

lemma doMove_sel [simp]:
  "activeColor (doMove S m) = oppositeColor (activeColor S)"
  "board (doMove S m) = boardAfter (board S) m"
  "castling (doMove S m) =
     castlingAfter (castling S) (cellAt (board S) (fst (from_sq m)) (snd (from_sq m))) m"
  "enPassant (doMove S m) =
     enPassantAfter (cellAt (board S) (fst (from_sq m)) (snd (from_sq m))) m"
  by (simp_all add: doMove_def Let_def)

lemma parseFEN_start: "parseFEN START_FEN = Inr startPosition"
  by code_simp

lemma e2e4_legal: "e2e4 \<in> set (generateLegalMoves startPosition)"
  by code_simp

section \<open>Legal moves leave the mover's king safe\<close>

text \<open>
  Claim C1.  Every move that \<open>generateLegalMoves\<close> returns for a position is one of its
  pseudo-legal moves, and in the position that \<open>doMove\<close> makes of a clone with that move
  the king of the side that moved is on the board and is not attacked by the other side.
\<close>

theorem legal_moves_keep_king_safe:
  assumes "m \<in> set (generateLegalMoves S)"
  shows "m \<in> set (generatePseudoLegalMoves S) \<and>
         (\<exists>kr kc. findKing (doMove (cloneState S) m) (activeColor S) = Some (kr, kc) \<and>
            \<not> isSquareAttacked (doMove (cloneState S) m) kr kc (oppositeColor (activeColor S)))"
proof -
  from assms have pl: "m \<in> set (generatePseudoLegalMoves S)" and safe: "keepsKingSafe S m"
    by (simp_all add: generateLegalMoves_def)
  from safe obtain kr kc where
    "findKing (doMove (cloneState S) m) (activeColor S) = Some (kr, kc)"
    "\<not> isSquareAttacked (doMove (cloneState S) m) kr kc (oppositeColor (activeColor S))"
    unfolding keepsKingSafe_def Let_def
    by (cases "findKing (doMove (cloneState S) m) (activeColor S)")
       (auto simp: cloneState_def oppositeColor_twice)
  with pl show ?thesis by blast
qed

theorem legal_moves_keep_king_safe_witness:
  "e2e4 \<in> set (generateLegalMoves startPosition) \<and>
   e2e4 \<in> set (generatePseudoLegalMoves startPosition) \<and>
   (\<exists>kr kc. findKing (doMove (cloneState startPosition) e2e4) (activeColor startPosition)
               = Some (kr, kc) \<and>
      \<not> isSquareAttacked (doMove (cloneState startPosition) e2e4) kr kc
           (oppositeColor (activeColor startPosition)))"
  using legal_moves_keep_king_safe [OF e2e4_legal] e2e4_legal by blast

section \<open>Leaves and terminal nodes of the search\<close>

lemma evaluate_no_moves:
  assumes "generateLegalMoves S = []" and "findKing S (activeColor S) = Some (kr, kc)"
  shows "evaluate g S =
     (if isSquareAttacked S kr kc (oppositeColor (activeColor S))
      then (if activeColor S = White then Fin (- 100000) else Fin 100000) else Fin 0)"
  using assms by (simp add: evaluate_def evaluateDetails_def Let_def)

lemma evaluate_no_king:
  assumes "findKing S (activeColor S) = None"
  shows "evaluate g S = (if activeColor S = White then NegInf else PosInf)"
  using assms by (simp add: evaluate_def evaluateDetails_def Let_def)

lemma minimax_no_moves:
  assumes "generateLegalMoves S = []" and "findKing S (activeColor S) = Some (kr, kc)"
  shows "score (fst (minimax d g S a b mx os sq cn)) =
     (if isSquareAttacked S kr kc (oppositeColor (activeColor S))
      then (if activeColor S = White then Fin (- 100000) else Fin 100000) else Fin 0)"
proof (cases d)
  case 0
  then show ?thesis using evaluate_no_moves [OF assms] by simp
next
  case (Suc n)
  then show ?thesis using assms by (simp add: Let_def)
qed

lemma minimax_no_king:
  assumes "generateLegalMoves S = []" and "findKing S (activeColor S) = None"
  shows "score (fst (minimax (Suc d) g S a b mx os sq cn)) = (if os then NegInf else PosInf)"
  using assms by (simp add: Let_def)

lemma mated_facts:
  "generateLegalMoves matedPosition = []"
  "findKing matedPosition (activeColor matedPosition) = Some (7, 7)"
  "isSquareAttacked matedPosition 7 7 (oppositeColor (activeColor matedPosition))"
  "activeColor matedPosition = White"
  by code_simp+

lemma kingless_facts:
  "generateLegalMoves kinglessPosition = []"
  "findKing kinglessPosition (activeColor kinglessPosition) = None"
  by code_simp+

text \<open>
  Claim C4, as stated, fails where the side to move has no king.  In
  \<open>kinglessPosition\<close> Black is to move and has no legal move, no black king is attacked
  (there is none), and \<open>minimax\<close> at depth 1 called with \<open>originalSide = true\<close> returns
  \<open>-Infinity\<close>: not 0, and not a score against Black, the side to move.
\<close>

theorem minimax_kingless_counterexample:
  "generateLegalMoves kinglessPosition = []
   \<and> findKing kinglessPosition (activeColor kinglessPosition) = None
   \<and> score (fst (minimax (Suc 0) getDefaultGenome kinglessPosition NegInf PosInf False True []
               noCounters)) = NegInf
   \<and> score (fst (minimax (Suc 0) getDefaultGenome kinglessPosition NegInf PosInf False True []
               noCounters)) \<noteq> Fin 0"
  by code_simp

text \<open>
  Claim C4, amended.  At depth 0 \<open>minimax\<close> returns the static evaluation.  At any depth,
  in a position without legal moves in which the side to move has a king, it returns
  -100000 (White to move) or 100000 (Black to move) when that king is attacked by the
  other side, and 0 when it is not.  In a position without legal moves in which the side
  to move has no king, it returns at every depth above 0 \<open>-Infinity\<close> when
  \<open>originalSide\<close> is set and \<open>Infinity\<close> otherwise.
\<close>

theorem minimax_leaf_and_terminal:
  "score (fst (minimax 0 g S a b mx os sq cn)) = evaluate g S
   \<and> (generateLegalMoves S = [] \<longrightarrow> findKing S (activeColor S) = Some (kr, kc) \<longrightarrow>
        score (fst (minimax d g S a b mx os sq cn)) =
          (if isSquareAttacked S kr kc (oppositeColor (activeColor S))
           then (if activeColor S = White then Fin (- 100000) else Fin 100000) else Fin 0))
   \<and> (generateLegalMoves S = [] \<longrightarrow> findKing S (activeColor S) = None \<longrightarrow>
        score (fst (minimax (Suc d) g S a b mx os sq cn)) = (if os then NegInf else PosInf))"
  using minimax_no_moves minimax_no_king by simp

theorem minimax_leaf_and_terminal_witness:
  "generateLegalMoves matedPosition = []
   \<and> findKing matedPosition (activeColor matedPosition) = Some (7, 7)
   \<and> score (fst (minimax (Suc (Suc 0)) getDefaultGenome matedPosition NegInf PosInf True True []
               noCounters)) = Fin (- 100000)
   \<and> generateLegalMoves kinglessPosition = []
   \<and> findKing kinglessPosition (activeColor kinglessPosition) = None
   \<and> score (fst (minimax (Suc 0) getDefaultGenome kinglessPosition NegInf PosInf False False []
               noCounters)) = PosInf"
  using minimax_leaf_and_terminal [of getDefaultGenome matedPosition NegInf PosInf True True "[]"
          noCounters 7 7 "Suc (Suc 0)"]
        minimax_leaf_and_terminal [of getDefaultGenome kinglessPosition NegInf PosInf False False
          "[]" noCounters 0 0 0]
        mated_facts kingless_facts
  by simp

section \<open>Reading and writing squares\<close>

lemma wf_board_nth: "wf_board b = (length b = 8 \<and> (\<forall>i<length b. length (b ! i) = 8))"
  unfolding wf_board_def by (simp add: list_all_length)

lemma wf_setCell [simp]: "wf_board (setCell b r c v) = wf_board b"
proof -
  have "length ((b[nat r := (b ! nat r)[nat c := v]]) ! i) = length (b ! i)" for i
    by (cases "nat r < length b") (simp_all add: nth_list_update list_update_beyond)
  then show ?thesis
    unfolding wf_board_nth setCell_def by simp
qed

lemma cellAt_setCell:
  "wf_board b \<Longrightarrow> onBoard r c \<Longrightarrow> onBoard r' c' \<Longrightarrow>
   cellAt (setCell b r c v) r' c' = (if r = r' \<and> c = c' then v else cellAt b r' c')"
  unfolding wf_board_nth setCell_def cellAt_def onBoard_def
  by (auto simp: nth_list_update nat_eq_iff)

lemma pieceColor_simps [simp]:
  "pieceColor None = None"
  "pieceColor (Some (CHR ''p'')) = Some Black"
  "pieceColor (Some (CHR ''P'')) = Some White"
  by (simp_all add: pieceColor_def toUpperCase_Char)

lemma lower_simps [simp]:
  "lower None = None"
  "lower (Some (CHR ''p'')) = Some (CHR ''p'')"
  "lower (Some (CHR ''P'')) = Some (CHR ''p'')"
  by (simp_all add: lower_def toLowerCase_Char)

section \<open>En-passant capture\<close>

lemma e2e4_board:
  assumes wf: "wf_board (board S0)" and ob: "onBoard r c"
  shows "cellAt (board (doMove S0 e2e4)) r c =
     (if (r, c) = (4, 4) then cellAt (board S0) 6 4
      else if (r, c) = (6, 4) then None else cellAt (board S0) r c)"
  using wf ob
  by (auto simp: boardAfter_def e2e4_def mkMove_def noFlags_def Let_def cellAt_setCell onBoard_def)

lemma e2e4_enPassant:
  assumes "cellAt (board S0) 6 4 = Some (CHR ''P'')"
  shows "enPassant (doMove S0 e2e4) = Some (5, 4)"
  using assms by (simp add: enPassantAfter_def e2e4_def mkMove_def)

lemma epCapture_generated:
  assumes "enPassant S = Some (5, 4)" and "cellAt (board S) 4 fc = Some (CHR ''p'')"
    and "fc = 3 \<or> fc = 5"
  shows "epCapture fc \<in> set (pawnMoves S 4 fc)"
  using assms
  by (auto simp: pawnMoves_def Let_def epCapture_def onBoard_def enemyOf_def)

lemma epCapture_board:
  assumes wf: "wf_board (board S)" and p: "cellAt (board S) 4 fc = Some (CHR ''p'')"
    and fc: "fc = 3 \<or> fc = 5" and ob: "onBoard r c"
  shows "cellAt (board (doMove S (epCapture fc))) r c =
     (if (r, c) = (5, 4) then Some (CHR ''p'')
      else if (r, c) = (4, 4) \<or> (r, c) = (4, fc) then None
      else cellAt (board S) r c)"
  using wf p fc ob
  by (auto simp: boardAfter_def epCapture_def mkMove_def noFlags_def Let_def cellAt_setCell
        onBoard_def)

text \<open>
  Claim C6.  From the starting position the move e2-e4 sets the en-passant target to
  e3.  The same holds in every position with a white pawn on e2; if a black pawn stands
  on d4 or f4, then after e2-e4 the generator offers that pawn the en-passant capture
  onto e3, and \<open>doMove\<close> with it empties e4 (where the white pawn stands) and the
  square the black pawn came from, puts the black pawn on e3, and changes no other
  square: nothing is removed from the rank of e3.
\<close>

theorem en_passant_removes_passed_pawn:
  assumes "wf_board (board S0)"
    and "cellAt (board S0) 6 4 = Some (CHR ''P'')"
    and "cellAt (board S0) 4 fc = Some (CHR ''p'')"
    and "fc = 3 \<or> fc = 5"
  shows "enPassant (doMove startPosition e2e4) = Some (5, 4)
     \<and> enPassant (doMove S0 e2e4) = Some (5, 4)
     \<and> cellAt (board (doMove S0 e2e4)) 4 4 = Some (CHR ''P'')
     \<and> epCapture fc \<in> set (pawnMoves (doMove S0 e2e4) 4 fc)
     \<and> (\<forall>r c. onBoard r c \<longrightarrow>
          cellAt (board (doMove (doMove S0 e2e4) (epCapture fc))) r c =
            (if (r, c) = (5, 4) then Some (CHR ''p'')
             else if (r, c) = (4, 4) \<or> (r, c) = (4, fc) then None
             else cellAt (board (doMove S0 e2e4)) r c))"
proof -
  let ?S1 = "doMove S0 e2e4"
  have start: "enPassant (doMove startPosition e2e4) = Some (5, 4)"
    by (rule e2e4_enPassant) code_simp
  have ep: "enPassant ?S1 = Some (5, 4)"
    using assms(2) by (rule e2e4_enPassant)
  have wf1: "wf_board (board ?S1)"
    using assms(1) by (simp add: boardAfter_def e2e4_def mkMove_def noFlags_def Let_def)
  have on44: "onBoard 4 4" and onfc: "onBoard 4 fc"
    using assms(4) by (auto simp: onBoard_def)
  have e4: "cellAt (board ?S1) 4 4 = Some (CHR ''P'')"
    using e2e4_board [OF assms(1) on44] assms(2) by simp
  have p1: "cellAt (board ?S1) 4 fc = Some (CHR ''p'')"
    using e2e4_board [OF assms(1) onfc] assms(3,4) by auto
  have gen: "epCapture fc \<in> set (pawnMoves ?S1 4 fc)"
    using ep p1 assms(4) by (rule epCapture_generated)
  show ?thesis
    using start ep e4 gen epCapture_board [OF wf1 p1 assms(4)] by blast
qed

theorem en_passant_removes_passed_pawn_witness:
  "wf_board (board beforeE4Position)
   \<and> cellAt (board beforeE4Position) 6 4 = Some (CHR ''P'')
   \<and> cellAt (board beforeE4Position) 4 3 = Some (CHR ''p'')
   \<and> enPassant (doMove beforeE4Position e2e4) = Some (5, 4)
   \<and> epCapture 3 \<in> set (pawnMoves (doMove beforeE4Position e2e4) 4 3)
   \<and> cellAt (board (doMove (doMove beforeE4Position e2e4) (epCapture 3))) 4 4 = None
   \<and> cellAt (board (doMove (doMove beforeE4Position e2e4) (epCapture 3))) 5 4 = Some (CHR ''p'')"
proof -
  have h: "wf_board (board beforeE4Position)"
    "cellAt (board beforeE4Position) 6 4 = Some (CHR ''P'')"
    "cellAt (board beforeE4Position) 4 3 = Some (CHR ''p'')"
    by code_simp+
  have o: "onBoard 4 4" "onBoard 5 4" by (simp_all add: onBoard_def)
  show ?thesis
    using en_passant_removes_passed_pawn [OF h] h o by simp
qed

section \<open>Insufficient material\<close>

lemma tallyStep_fields:
  "pawns (tallyStep b t sq) = pawns t + (if kindAt b (CHR ''p'') sq then 1 else 0)"
  "rooks (tallyStep b t sq) = rooks t + (if kindAt b (CHR ''r'') sq then 1 else 0)"
  "queens (tallyStep b t sq) = queens t + (if kindAt b (CHR ''q'') sq then 1 else 0)"
  "bishops (tallyStep b t sq) = bishops t + (if kindAt b (CHR ''b'') sq then 1 else 0)"
  "knights (tallyStep b t sq) = knights t + (if kindAt b (CHR ''n'') sq then 1 else 0)"
  "bishopSquares (tallyStep b t sq) =
     bishopSquares t @ (if kindAt b (CHR ''b'') sq then [(fst sq + snd sq) mod 2] else [])"
  by (cases sq; cases "cellAt b (fst sq) (snd sq)";
      simp add: tallyStep_def kindAt_def Let_def lower_def)+

lemma tally_fold:
  "pawns (foldl (tallyStep b) t sqs) = pawns t + length (filter (kindAt b (CHR ''p'')) sqs)"
  "rooks (foldl (tallyStep b) t sqs) = rooks t + length (filter (kindAt b (CHR ''r'')) sqs)"
  "queens (foldl (tallyStep b) t sqs) = queens t + length (filter (kindAt b (CHR ''q'')) sqs)"
  "bishops (foldl (tallyStep b) t sqs) = bishops t + length (filter (kindAt b (CHR ''b'')) sqs)"
  "knights (foldl (tallyStep b) t sqs) = knights t + length (filter (kindAt b (CHR ''n'')) sqs)"
  "bishopSquares (foldl (tallyStep b) t sqs) =
     bishopSquares t @ map (\<lambda>sq. (fst sq + snd sq) mod 2) (filter (kindAt b (CHR ''b'')) sqs)"
  by (induction sqs arbitrary: t; simp add: tallyStep_fields)+

lemma all_equal_head: "length ps = 2 \<Longrightarrow> list_all (\<lambda>p. p = hd ps) ps = (length (remdups ps) \<le> 1)"
  by (cases ps; cases "tl ps") auto

text \<open>
  Claim C8, as stated, fails: with two knights and a bishop next to the kings there are
  exactly two knights and no pawn, rook or queen, yet \<open>isInsufficientMaterial\<close> is false.
\<close>

theorem insufficient_material_counterexample:
  "insufficientAsStated twoKnightsAndBishop \<and> \<not> isInsufficientMaterial twoKnightsAndBishop"
  by code_simp

text \<open>
  Claim C8, amended.  \<open>isInsufficientMaterial\<close> is true exactly when the board holds no
  pawn, rook or queen and the minor pieces (bishops and knights of both sides) are none,
  or one, or two knights and no bishop, or two bishops and no knight with both bishops on
  squares of the same colour.
\<close>

theorem insufficient_material_iff:
  "isInsufficientMaterial S =
     (let b = board S; nb = countKind b (CHR ''b''); nn = countKind b (CHR ''n'') in
      noMajorOrPawn b \<and>
      (nb + nn \<le> 1
       \<or> (nn = 2 \<and> nb = 0)
       \<or> (nb = 2 \<and> nn = 0 \<and> length (remdups (bishopColors b)) \<le> 1)))"
proof -
  let ?b = "board S"
  define t where "t = foldl (tallyStep ?b)
      \<lparr>pawns = 0, rooks = 0, queens = 0, bishops = 0, knights = 0, bishopSquares = []\<rparr>
      allSquares"
  have f: "pawns t = countKind ?b (CHR ''p'')" "rooks t = countKind ?b (CHR ''r'')"
    "queens t = countKind ?b (CHR ''q'')" "bishops t = countKind ?b (CHR ''b'')"
    "knights t = countKind ?b (CHR ''n'')" "bishopSquares t = bishopColors ?b"
    by (simp_all add: t_def tally_fold countKind_def bishopColors_def)
  have two: "countKind ?b (CHR ''b'') = 2 \<Longrightarrow>
        list_all (\<lambda>p. p = hd (bishopColors ?b)) (bishopColors ?b)
          = (length (remdups (bishopColors ?b)) \<le> 1)"
    by (rule all_equal_head) (simp add: bishopColors_def countKind_def)
  have "isInsufficientMaterial S =
     (if pawns t > 0 \<or> rooks t > 0 \<or> queens t > 0 then False
      else if bishops t + knights t = 0 then True
      else if bishops t + knights t = 1 then True
      else if bishops t + knights t = 2 then
        (if knights t = 2 then True
         else if bishops t = 2 then list_all (\<lambda>p. p = hd (bishopSquares t)) (bishopSquares t)
         else False)
      else False)"
    by (simp add: isInsufficientMaterial_def Let_def t_def)
  then show ?thesis
    unfolding f Let_def noMajorOrPawn_def using two by auto
qed

section \<open>A side without a king has no legal move\<close>

lemma mem_range8: "x \<in> set range8 \<longleftrightarrow> 0 \<le> x \<and> x < 8"
  by (auto simp: range8_def)

lemma mem_allSquares: "(r, c) \<in> set allSquares \<longleftrightarrow> onBoard r c"
  by (force simp: allSquares_def mem_range8 onBoard_def)

lemma findKing_None:
  "findKing S col = None \<longleftrightarrow>
     (\<forall>r c. onBoard r c \<longrightarrow> cellAt (board S) r c \<noteq> Some (kingChar col))"
proof -
  have "findKing S col = None \<longleftrightarrow>
      filter (\<lambda>(r, c). cellAt (board S) r c = Some (kingChar col)) allSquares = []"
    by (simp add: findKing_def split: list.splits)
  also have "\<dots> \<longleftrightarrow> (\<forall>r c. (r, c) \<in> set allSquares \<longrightarrow>
      cellAt (board S) r c \<noteq> Some (kingChar col))"
    by (auto simp: filter_empty_conv)
  finally show ?thesis by (simp add: mem_allSquares)
qed

lemma cellAt_setCell_cases:
  assumes "wf_board b" and "onBoard r' c'"
  shows "cellAt (setCell b r c v) r' c' = v \<or> cellAt (setCell b r c v) r' c' = cellAt b r' c'"
proof (cases "nat r = nat r'")
  case True
  then show ?thesis
    using assms unfolding wf_board_nth setCell_def cellAt_def onBoard_def
    by (cases "nat c = nat c'") (auto simp: nth_list_update)
next
  case False
  then show ?thesis
    unfolding setCell_def cellAt_def by (simp add: nth_list_update_neq)
qed

lemma setCell_absent:
  assumes "wf_board b" and "\<forall>r c. onBoard r c \<longrightarrow> cellAt b r c \<noteq> Some k" and "v \<noteq> Some k"
  shows "\<forall>r c. onBoard r c \<longrightarrow> cellAt (setCell b r0 c0 v) r c \<noteq> Some k"
  using assms cellAt_setCell_cases [OF assms(1)] by metis

text \<open>A move without castling flag whose promotion, if any, is one of the four kinds.\<close>

lemma promo_not_king:
  assumes "promo \<in> set promoKinds"
  shows "toUpperCase promo \<noteq> kingChar col" and "toLowerCase promo \<noteq> kingChar col"
  using assms
  by (auto simp: promoKinds_def kingChar_def toUpperCase_Char toLowerCase_Char)

lemma boardAfter_absent:
  assumes wf: "wf_board b"
    and ab: "\<forall>r c. onBoard r c \<longrightarrow> cellAt b r c \<noteq> Some (kingChar col)"
    and fr: "onBoard (fst (from_sq m)) (snd (from_sq m))"
    and nc: "castle (flags m) = None"
    and pr: "promotion m = None \<or> (\<exists>promo \<in> set promoKinds. promotion m = Some promo)"
  shows "\<forall>r c. onBoard r c \<longrightarrow> cellAt (boardAfter b m) r c \<noteq> Some (kingChar col)"
proof -
  obtain fr' fc tr tc where sq: "from_sq m = (fr', fc)" "to_sq m = (tr, tc)"
    by (cases "from_sq m"; cases "to_sq m") auto
  let ?k = "kingChar col"
  let ?b1 = "setCell b fr' fc None"
  let ?b2 = "if enpassant (flags m) then setCell ?b1 fr' tc None else ?b1"
  have pc: "cellAt b fr' fc \<noteq> Some ?k"
    using ab fr sq by simp
  have a1: "\<forall>r c. onBoard r c \<longrightarrow> cellAt ?b1 r c \<noteq> Some ?k"
    by (rule setCell_absent [OF wf ab]) simp
  have w1: "wf_board ?b1" using wf by simp
  have a2: "\<forall>r c. onBoard r c \<longrightarrow> cellAt ?b2 r c \<noteq> Some ?k"
    using a1 setCell_absent [OF w1 a1, of None] by simp
  have w2: "wf_board ?b2" using wf by simp
  have fin: "v \<noteq> Some ?k \<Longrightarrow> \<forall>r c. onBoard r c \<longrightarrow> cellAt (setCell ?b2 tr tc v) r c \<noteq> Some ?k"
    for v by (rule setCell_absent [OF w2 a2])
  show ?thesis
  proof (cases "promotion m")
    case None
    then have "boardAfter b m = setCell ?b2 tr tc (cellAt b fr' fc)"
      by (simp add: boardAfter_def sq nc Let_def)
    then show ?thesis using fin [OF pc] by simp
  next
    case (Some promo)
    with pr have pk: "promo \<in> set promoKinds" by auto
    let ?ch = "if cellAt b fr' fc = map_option toUpperCase (cellAt b fr' fc)
               then toUpperCase promo else toLowerCase promo"
    have "boardAfter b m = setCell ?b2 tr tc (Some ?ch)"
      using Some by (simp add: boardAfter_def sq nc Let_def)
    moreover have "Some ?ch \<noteq> Some ?k"
      using promo_not_king [OF pk, of col] by simp
    ultimately show ?thesis using fin by simp
  qed
qed

lemma plainMove_mk [simp]:
  "plainMove r c (mkMove (r, c) t p cap None noFlags)"
  "plainMove r c (mkMove (r, c) t p cap None (noFlags\<lparr>double := True\<rparr>))"
  "plainMove r c (mkMove (r, c) t p cap None (noFlags\<lparr>enpassant := True\<rparr>))"
  "promo \<in> set promoKinds \<Longrightarrow> plainMove r c (mkMove (r, c) t p cap (Some promo) noFlags)"
  by (simp_all add: plainMove_def mkMove_def noFlags_def)

lemma pawnMoves_plain: "m \<in> set (pawnMoves S r c) \<Longrightarrow> plainMove r c m"
  by (auto simp: pawnMoves_def Let_def split: if_splits)

lemma stepMoves_plain: "m \<in> set (stepMoves b r c ds) \<Longrightarrow> plainMove r c m"
  by (auto simp: stepMoves_def Let_def split: if_splits)

lemma slideRay_plain: "m \<in> set (slideRay b r c p e nr nc dr dc) \<Longrightarrow> plainMove r c m"
proof (induction b r c p e nr nc dr dc rule: slideRay.induct)
  case (1 b r c p e nr nc dr dc)
  show ?case
  proof (cases "onBoard nr nc \<and> (dr, dc) \<noteq> (0, 0)")
    case False
    with "1.prems" show ?thesis by (subst (asm) slideRay.simps) simp
  next
    case True
    show ?thesis
    proof (cases "cellAt b nr nc = None")
      case e: True
      with True "1.prems" "1.IH" show ?thesis
        by (subst (asm) slideRay.simps) (auto simp: Let_def)
    next
      case ne: False
      with True "1.prems" show ?thesis
        by (subst (asm) slideRay.simps) (auto simp: Let_def split: if_splits)
    qed
  qed
qed

lemma slidingMoves_plain: "m \<in> set (slidingMoves S r c dirs) \<Longrightarrow> plainMove r c m"
  by (auto simp: slidingMoves_def Let_def dest: slideRay_plain)

lemma king_letter:
  assumes "lower p = Some (CHR ''k'')" and "pieceColor p = Some col"
  shows "p = Some (kingChar col)"
proof -
  from assms(1) obtain ch where p: "p = Some ch" and l: "toLowerCase ch = CHR ''k''"
    by (auto simp: lower_def)
  obtain b0 b1 b2 b3 b4 b5 b6 b7 where ch: "ch = Char b0 b1 b2 b3 b4 b5 b6 b7"
    by (cases ch)
  from l have "ch = CHR ''k'' \<or> ch = CHR ''K''"
    unfolding ch toLowerCase_Char by (auto split: if_splits)
  then show ?thesis
    using assms(2) p
    by (cases col) (auto simp: pieceColor_def kingChar_def toUpperCase_Char split: if_splits)
qed

lemma movesFrom_plain:
  assumes "cellAt (board S) r c \<noteq> Some (kingChar (activeColor S))"
    and "m \<in> set (movesFrom S r c)"
  shows "plainMove r c m"
proof -
  let ?p = "cellAt (board S) r c"
  have nk: "\<not> (lower ?p = Some (CHR ''k'') \<and> pieceColor ?p = Some (activeColor S))"
    using assms(1) king_letter by blast
  from assms(2) show ?thesis
    using nk
    by (auto simp: movesFrom_def Let_def knightMoves_def
             dest: pawnMoves_plain stepMoves_plain slidingMoves_plain split: if_splits)
qed

lemma pseudoLegal_from:
  assumes "m \<in> set (generatePseudoLegalMoves S)"
  shows "\<exists>r c. onBoard r c \<and> m \<in> set (movesFrom S r c)"
  using assms by (force simp: generatePseudoLegalMoves_def mem_range8 onBoard_def)

lemma kingless_after_move:
  assumes wf: "wf_board (board S)" and nk: "findKing S (activeColor S) = None"
    and m: "m \<in> set (generatePseudoLegalMoves S)"
  shows "findKing (doMove (cloneState S) m) (activeColor S) = None"
proof -
  from pseudoLegal_from [OF m] obtain r c where
    ob: "onBoard r c" and mf: "m \<in> set (movesFrom S r c)" by blast
  have ab: "\<forall>r c. onBoard r c \<longrightarrow> cellAt (board S) r c \<noteq> Some (kingChar (activeColor S))"
    using nk by (simp add: findKing_None)
  then have "plainMove r c m"
    using movesFrom_plain [OF _ mf] ob by blast
  then have "\<forall>r c. onBoard r c \<longrightarrow>
      cellAt (boardAfter (board S) m) r c \<noteq> Some (kingChar (activeColor S))"
    using boardAfter_absent [OF wf ab, of m] ob by (simp add: plainMove_def)
  then show ?thesis
    by (simp add: findKing_None cloneState_def)
qed

lemma kingless_no_legal:
  assumes "wf_board (board S)" and "findKing S (activeColor S) = None"
  shows "generateLegalMoves S = []"
proof -
  have "\<not> keepsKingSafe S m" if "m \<in> set (generatePseudoLegalMoves S)" for m
    using kingless_after_move [OF assms that]
    by (simp add: keepsKingSafe_def Let_def cloneState_def oppositeColor_twice)
  then show ?thesis
    by (simp add: generateLegalMoves_def filter_empty_conv)
qed

text \<open>
  Claim C10.  In a position whose side to move has no king on the board, after every
  pseudo-legal move the mover still has no king, so \<open>generateLegalMoves\<close> returns the
  empty list; \<open>evaluate\<close> then returns \<open>-Infinity\<close> (White to move) or \<open>Infinity\<close>, and
  \<open>minimax\<close> at a depth above 0 returns \<open>-Infinity\<close> or \<open>Infinity\<close> by \<open>originalSide\<close>:
  the position is a terminal one, and no error is raised.
\<close>

theorem kingless_side_is_terminal:
  assumes "wf_board (board S)" and "findKing S (activeColor S) = None"
  shows "generateLegalMoves S = []
     \<and> list_all (\<lambda>m. findKing (doMove (cloneState S) m) (activeColor S) = None)
         (generatePseudoLegalMoves S)
     \<and> evaluate g S = (if activeColor S = White then NegInf else PosInf)
     \<and> score (fst (minimax 0 g S a b mx os sq cn))
         = (if activeColor S = White then NegInf else PosInf)
     \<and> score (fst (minimax (Suc d) g S a b mx os sq cn)) = (if os then NegInf else PosInf)"
  using kingless_no_legal [OF assms] kingless_after_move [OF assms] evaluate_no_king [OF assms(2)]
    minimax_no_king [OF kingless_no_legal [OF assms] assms(2)]
  by (simp add: list_all_iff)

theorem kingless_side_is_terminal_witness:
  "wf_board (board kinglessWithPawn)
   \<and> findKing kinglessWithPawn (activeColor kinglessWithPawn) = None
   \<and> length (generatePseudoLegalMoves kinglessWithPawn) = 2
   \<and> generateLegalMoves kinglessWithPawn = []
   \<and> evaluate getDefaultGenome kinglessWithPawn = PosInf"
proof -
  have h: "wf_board (board kinglessWithPawn)"
    "findKing kinglessWithPawn (activeColor kinglessWithPawn) = None"
    by code_simp+
  have c: "length (generatePseudoLegalMoves kinglessWithPawn) = 2"
    "activeColor kinglessWithPawn = Black"
    by code_simp+
  show ?thesis
    using kingless_side_is_terminal [OF h, of getDefaultGenome] h c by simp
qed

section \<open>King-side castling of White\<close>

lemma pieceColor_KR [simp]:
  "pieceColor (Some (CHR ''K'')) = Some White"
  "pieceColor (Some (CHR ''R'')) = Some White"
  by (simp_all add: pieceColor_def toUpperCase_Char)

lemma lower_KR [simp]:
  "lower (Some (CHR ''K'')) = Some (CHR ''k'')"
  "lower (Some (CHR ''R'')) = Some (CHR ''r'')"
  by (simp_all add: lower_def toLowerCase_Char)

lemma whiteCastleK_board:
  assumes wf: "wf_board (board S)" and k: "cellAt (board S) 7 4 = Some (CHR ''K'')"
    and ob: "onBoard r c"
  shows "cellAt (board (doMove S whiteCastleK)) r c =
     (if (r, c) = (7, 4) \<or> (r, c) = (7, 7) then None
      else if (r, c) = (7, 5) then cellAt (board S) 7 7
      else if (r, c) = (7, 6) then Some (CHR ''K'')
      else cellAt (board S) r c)"
  using wf k ob
  by (auto simp: boardAfter_def whiteCastleK_def castleMove_def mkMove_def noFlags_def Let_def
        cellAt_setCell onBoard_def)

lemma whiteCastleK_rights:
  assumes "cellAt (board S) 7 4 = Some (CHR ''K'')"
  shows "\<not> wK (castling (doMove S whiteCastleK))" and "\<not> wQ (castling (doMove S whiteCastleK))"
  using assms
  by (simp_all add: castlingAfter_def whiteCastleK_def castleMove_def mkMove_def noFlags_def
        Let_def toUpperCase_Char)

lemma clearRookRights_sel [simp]:
  "wK (clearRookRights cr r c) = (wK cr \<and> \<not> (r = 7 \<and> c = 7))"
  "wQ (clearRookRights cr r c) = (wQ cr \<and> \<not> (r = 7 \<and> c = 0))"
  "bK (clearRookRights cr r c) = (bK cr \<and> \<not> (r = 0 \<and> c = 7))"
  "bQ (clearRookRights cr r c) = (bQ cr \<and> \<not> (r = 0 \<and> c = 0))"
  by (simp_all add: clearRookRights_def Let_def)

lemma castlingAfter_mono:
  "wK (castlingAfter cr pc m) \<Longrightarrow> wK cr" "wQ (castlingAfter cr pc m) \<Longrightarrow> wQ cr"
  "bK (castlingAfter cr pc m) \<Longrightarrow> bK cr" "bQ (castlingAfter cr pc m) \<Longrightarrow> bQ cr"
  by (cases "from_sq m"; cases "to_sq m";
      simp add: castlingAfter_def Let_def split: if_splits)+

lemma doMove_rights_mono:
  "wK (castling (doMove S m)) \<Longrightarrow> wK (castling S)"
  "wQ (castling (doMove S m)) \<Longrightarrow> wQ (castling S)"
  by (simp_all add: castlingAfter_mono)

lemma wK_never_returns: "wK (castling (foldl doMove S ms)) \<Longrightarrow> wK (castling S)"
proof (induction ms arbitrary: S)
  case Nil
  then show ?case by simp
next
  case (Cons m ms)
  have "wK (castling (doMove S m))"
    using Cons.IH [of "doMove S m"] Cons.prems by (simp del: doMove_sel)
  then show ?case by (rule doMove_rights_mono)
qed

lemma wQ_never_returns: "wQ (castling (foldl doMove S ms)) \<Longrightarrow> wQ (castling S)"
proof (induction ms arbitrary: S)
  case Nil
  then show ?case by simp
next
  case (Cons m ms)
  have "wQ (castling (doMove S m))"
    using Cons.IH [of "doMove S m"] Cons.prems by (simp del: doMove_sel)
  then show ?case by (rule doMove_rights_mono)
qed

lemma rayAttack_off: "\<not> onBoard nr nc \<Longrightarrow> rayAttack b a k1 k2 nr nc dr dc = False"
  by (subst rayAttack.simps) simp

lemma rayAttack_upper:
  assumes "\<forall>r c. onBoard r c \<and> r \<le> 6 \<longrightarrow> cellAt b2 r c = cellAt b r c"
    and "nr \<le> 6" and "dr \<le> 0"
  shows "rayAttack b2 a k1 k2 nr nc dr dc = rayAttack b a k1 k2 nr nc dr dc"
  using assms
proof (induction b a k1 k2 nr nc dr dc rule: rayAttack.induct)
  case (1 b a k1 k2 nr nc dr dc)
  note unfold = rayAttack.simps [of b2 a k1 k2 nr nc dr dc] rayAttack.simps [of b a k1 k2 nr nc dr dc]
  show ?case
  proof (cases "onBoard nr nc \<and> (dr, dc) \<noteq> (0, 0)")
    case False
    then show ?thesis
      unfolding unfold by auto
  next
    case True
    then have same: "cellAt b2 nr nc = cellAt b nr nc"
      using "1.prems" by simp
    show ?thesis
    proof (cases "cellAt b nr nc = None")
      case e: True
      have "rayAttack b2 a k1 k2 (nr + dr) (nc + dc) dr dc
          = rayAttack b a k1 k2 (nr + dr) (nc + dc) dr dc"
        using "1.IH" True e "1.prems" by simp
      then show ?thesis
        unfolding unfold using same e True by (simp add: Let_def)
    next
      case ne: False
      then show ?thesis
        unfolding unfold using same True by (simp add: Let_def)
    qed
  qed
qed

lemma pieceIs_upper:
  assumes "\<forall>r c. onBoard r c \<and> r \<le> 6 \<longrightarrow> cellAt b2 r c = cellAt b r c" and "r \<le> 6"
  shows "pieceIs b2 r c k a = pieceIs b r c k a"
  using assms by (auto simp: pieceIs_def)

lemma g1_safe_after_castle:
  assumes wf: "wf_board (board S)" and k: "cellAt (board S) 7 4 = Some (CHR ''K'')"
    and rk: "cellAt (board S) 7 7 = Some (CHR ''R'')"
    and safe: "\<not> isSquareAttacked S 7 6 Black"
  shows "\<not> isSquareAttacked (doMove S whiteCastleK) 7 6 Black"
proof -
  let ?b = "board S"
  let ?b2 = "boardAfter (board S) whiteCastleK"
  have up: "\<forall>r c. onBoard r c \<and> r \<le> 6 \<longrightarrow> cellAt ?b2 r c = cellAt ?b r c"
    using whiteCastleK_board [OF wf k] by auto
  have f1: "cellAt ?b2 7 5 = Some (CHR ''R'')" and h1: "cellAt ?b2 7 7 = None"
    using whiteCastleK_board [OF wf k, of 7 5] whiteCastleK_board [OF wf k, of 7 7] rk
    by (simp_all add: onBoard_def)
  have right: "\<not> rayAttack ?b2 Black k1 k2 7 7 0 1" for k1 k2
    by (subst rayAttack.simps) (simp add: h1 onBoard_def Let_def rayAttack_off)
  have left: "\<not> rayAttack ?b2 Black k1 k2 7 5 0 (- 1)" for k1 k2
    by (subst rayAttack.simps) (simp add: f1 onBoard_def Let_def)
  have adj: "\<not> pieceIs ?b2 7 5 (CHR ''k'') Black" "\<not> pieceIs ?b2 7 7 (CHR ''k'') Black"
    by (simp_all add: pieceIs_def f1 h1)
  have off: "\<not> pieceIs ?b2 8 c k Black" "\<not> pieceIs ?b2 9 c k Black" for c k
    by (simp_all add: pieceIs_def onBoard_def)
  from safe show ?thesis
    unfolding isSquareAttacked_def Let_def knightDeltas_def diagDirs_def straightDirs_def
      kingDeltas_def
    by (simp add: rayAttack_upper [OF up] pieceIs_upper [OF up] rayAttack_off right left adj off
          onBoard_def)
qed

lemma findKing_SomeD:
  assumes "findKing S col = Some (r, c)"
  shows "cellAt (board S) r c = Some (kingChar col)"
proof -
  let ?P = "\<lambda>(r, c). cellAt (board S) r c = Some (kingChar col)"
  from assms obtain rest where "filter ?P allSquares = (r, c) # rest"
    by (auto simp: findKing_def split: list.splits)
  then have "(r, c) \<in> set (filter ?P allSquares)" by simp
  then show ?thesis by simp
qed

text \<open>The squares that the scan of \<open>findKing\<close> visits before e1.\<close>

lemma allSquares_e1:
  "allSquares = take 60 allSquares @ [(7, 4), (7, 5), (7, 6), (7, 7)]"
  "list_all (\<lambda>(r, c). onBoard r c \<and> (r \<le> 6 \<or> c \<le> 3)) (take 60 allSquares)"
  by (simp_all add: allSquares_def range8_def onBoard_def)

lemma findKing_after_castle:
  assumes wf: "wf_board (board S)" and fk: "findKing S White = Some (7, 4)"
    and rk: "cellAt (board S) 7 7 = Some (CHR ''R'')"
  shows "findKing (doMove S whiteCastleK) White = Some (7, 6)"
proof -
  let ?pre = "take 60 allSquares"
  let ?P = "\<lambda>(r, c). cellAt (board S) r c = Some (kingChar White)"
  let ?P2 = "\<lambda>(r, c). cellAt (boardAfter (board S) whiteCastleK) r c = Some (kingChar White)"
  have k: "cellAt (board S) 7 4 = Some (CHR ''K'')"
    using findKing_SomeD [OF fk] by (simp add: kingChar_def)
  have cells: "onBoard r c \<Longrightarrow> cellAt (boardAfter (board S) whiteCastleK) r c =
     (if (r, c) = (7, 4) \<or> (r, c) = (7, 7) then None
      else if (r, c) = (7, 5) then cellAt (board S) 7 7
      else if (r, c) = (7, 6) then Some (CHR ''K'')
      else cellAt (board S) r c)" for r c
    using whiteCastleK_board [OF wf k, of r c] by simp
  have pre: "\<forall>sq \<in> set ?pre. onBoard (fst sq) (snd sq) \<and> (fst sq \<le> 6 \<or> snd sq \<le> 3)"
    using allSquares_e1(2) by (auto simp: list_all_iff)
  from fk obtain rest where "filter ?P allSquares = (7, 4) # rest"
    by (auto simp: findKing_def split: list.splits)
  then have hd: "filter ?P ?pre @ filter ?P [(7, 4), (7, 5), (7, 6), (7, 7)] = (7, 4) # rest"
    by (subst (asm) allSquares_e1(1)) (simp only: filter_append)
  have none: "filter ?P ?pre = []"
  proof (cases "filter ?P ?pre")
    case Nil
    then show ?thesis .
  next
    case (Cons y ys)
    with hd have "y = (7, 4)" by simp
    moreover have "y \<in> set ?pre"
    proof -
      have "y \<in> set (filter ?P ?pre)" using Cons by simp
      then show ?thesis by simp
    qed
    ultimately show ?thesis using pre by auto
  qed
  have "filter ?P2 ?pre = []"
  proof -
    have "\<not> ?P2 sq" if "sq \<in> set ?pre" for sq
    proof -
      obtain r c where sq: "sq = (r, c)" by (cases sq)
      have "\<not> ?P sq" using none that by (auto simp: filter_empty_conv)
      moreover have "cellAt (boardAfter (board S) whiteCastleK) r c = cellAt (board S) r c"
        using pre that cells [of r c] by (auto simp: sq)
      ultimately show ?thesis by (simp add: sq)
    qed
    then show ?thesis by (auto simp: filter_empty_conv)
  qed
  moreover have "filter ?P2 [(7, 4), (7, 5), (7, 6), (7, 7)] = (7, 6) # filter ?P2 [(7, 7)]"
    using cells [of 7 4] cells [of 7 5] cells [of 7 6] rk
    by (simp add: onBoard_def kingChar_def)
  ultimately have "filter ?P2 allSquares = (7, 6) # filter ?P2 [(7, 7)]"
    by (subst allSquares_e1(1)) (simp only: filter_append append_Nil)
  then show ?thesis
    by (simp add: findKing_def)
qed

lemma pseudoLegal_intro:
  assumes "m \<in> set (movesFrom S r c)" and "onBoard r c"
  shows "m \<in> set (generatePseudoLegalMoves S)"
  using assms by (force simp: generatePseudoLegalMoves_def mem_range8 onBoard_def)

lemma whiteCastleK_generated:
  assumes "activeColor S = White" and "cellAt (board S) 7 4 = Some (CHR ''K'')"
    and "wK (castling S)" and "cellAt (board S) 7 5 = None" and "cellAt (board S) 7 6 = None"
    and "\<not> isSquareAttacked S 7 4 Black" and "\<not> isSquareAttacked S 7 5 Black"
    and "\<not> isSquareAttacked S 7 6 Black"
  shows "whiteCastleK \<in> set (generatePseudoLegalMoves S)"
proof -
  have "whiteCastleK \<in> set (kingMoves S 7 4)"
    using assms by (simp add: kingMoves_def Let_def enemyOf_def whiteCastleK_def)
  then have "whiteCastleK \<in> set (movesFrom S 7 4)"
    using assms(1,2) by (simp add: movesFrom_def Let_def)
  then show ?thesis
    by (rule pseudoLegal_intro) (simp add: onBoard_def)
qed

text \<open>
  Claim C5.  White is to move, \<open>findKing\<close> locates the white king on e1, a white rook
  stands on h1, the king-side right of White is held, f1 and g1 are empty, and e1, f1
  and g1 are not attacked by Black.  Then the king-side castling move is among the legal
  moves; \<open>doMove\<close> with it puts the king on g1 and the rook on f1 and empties e1 and h1;
  and after it, whatever moves \<open>doMove\<close> is given later, neither castling right of White
  is ever held again.
\<close>

theorem white_kingside_castle:
  assumes "wf_board (board S)" and "activeColor S = White"
    and "findKing S White = Some (7, 4)" and "cellAt (board S) 7 7 = Some (CHR ''R'')"
    and "wK (castling S)" and "cellAt (board S) 7 5 = None" and "cellAt (board S) 7 6 = None"
    and "\<not> isSquareAttacked S 7 4 Black" and "\<not> isSquareAttacked S 7 5 Black"
    and "\<not> isSquareAttacked S 7 6 Black"
  shows "whiteCastleK \<in> set (generateLegalMoves S)
     \<and> cellAt (board (doMove S whiteCastleK)) 7 6 = Some (CHR ''K'')
     \<and> cellAt (board (doMove S whiteCastleK)) 7 5 = Some (CHR ''R'')
     \<and> cellAt (board (doMove S whiteCastleK)) 7 4 = None
     \<and> cellAt (board (doMove S whiteCastleK)) 7 7 = None
     \<and> (\<forall>ms. \<not> wK (castling (foldl doMove (doMove S whiteCastleK) ms))
             \<and> \<not> wQ (castling (foldl doMove (doMove S whiteCastleK) ms)))"
proof -
  have k: "cellAt (board S) 7 4 = Some (CHR ''K'')"
    using findKing_SomeD [OF assms(3)] by (simp add: kingChar_def)
  have gen: "whiteCastleK \<in> set (generatePseudoLegalMoves S)"
    using assms(2) k assms(5-10) by (rule whiteCastleK_generated)
  have "keepsKingSafe S whiteCastleK"
    using findKing_after_castle [OF assms(1,3,4)] g1_safe_after_castle [OF assms(1) k assms(4,10)]
    by (simp add: keepsKingSafe_def Let_def cloneState_def assms(2) oppositeColor_def)
  with gen have legal: "whiteCastleK \<in> set (generateLegalMoves S)"
    by (simp add: generateLegalMoves_def)
  have cells: "cellAt (board (doMove S whiteCastleK)) 7 6 = Some (CHR ''K'')"
    "cellAt (board (doMove S whiteCastleK)) 7 5 = Some (CHR ''R'')"
    "cellAt (board (doMove S whiteCastleK)) 7 4 = None"
    "cellAt (board (doMove S whiteCastleK)) 7 7 = None"
    using whiteCastleK_board [OF assms(1) k, of 7 6] whiteCastleK_board [OF assms(1) k, of 7 5]
      whiteCastleK_board [OF assms(1) k, of 7 4] whiteCastleK_board [OF assms(1) k, of 7 7]
      assms(4)
    by (simp_all add: onBoard_def)
  have "\<not> wK (castling (foldl doMove (doMove S whiteCastleK) ms))"
    "\<not> wQ (castling (foldl doMove (doMove S whiteCastleK) ms))" for ms
    using whiteCastleK_rights [OF k] wK_never_returns wQ_never_returns by blast+
  with legal cells show ?thesis by blast
qed

theorem white_kingside_castle_witness:
  "wf_board (board castleReadyPosition) \<and> activeColor castleReadyPosition = White
   \<and> findKing castleReadyPosition White = Some (7, 4)
   \<and> wK (castling castleReadyPosition)
   \<and> \<not> isSquareAttacked castleReadyPosition 7 4 Black
   \<and> \<not> isSquareAttacked castleReadyPosition 7 5 Black
   \<and> \<not> isSquareAttacked castleReadyPosition 7 6 Black
   \<and> whiteCastleK \<in> set (generateLegalMoves castleReadyPosition)
   \<and> cellAt (board (doMove castleReadyPosition whiteCastleK)) 7 6 = Some (CHR ''K'')
   \<and> cellAt (board (doMove castleReadyPosition whiteCastleK)) 7 5 = Some (CHR ''R'')
   \<and> \<not> wK (castling (doMove castleReadyPosition whiteCastleK))
   \<and> \<not> wQ (castling (doMove castleReadyPosition whiteCastleK))"
proof -
  have h: "wf_board (board castleReadyPosition)" "activeColor castleReadyPosition = White"
    "findKing castleReadyPosition White = Some (7, 4)"
    "cellAt (board castleReadyPosition) 7 7 = Some (CHR ''R'')"
    "wK (castling castleReadyPosition)"
    "cellAt (board castleReadyPosition) 7 5 = None"
    "cellAt (board castleReadyPosition) 7 6 = None"
    "\<not> isSquareAttacked castleReadyPosition 7 4 Black"
    "\<not> isSquareAttacked castleReadyPosition 7 5 Black"
    "\<not> isSquareAttacked castleReadyPosition 7 6 Black"
    by code_simp+
  have "\<forall>ms. \<not> wK (castling (foldl doMove (doMove castleReadyPosition whiteCastleK) ms))
             \<and> \<not> wQ (castling (foldl doMove (doMove castleReadyPosition whiteCastleK) ms))"
    using white_kingside_castle [OF h] by blast
  then have "\<not> wK (castling (foldl doMove (doMove castleReadyPosition whiteCastleK) []))
             \<and> \<not> wQ (castling (foldl doMove (doMove castleReadyPosition whiteCastleK) []))"
    by (rule spec)
  then show ?thesis
    using white_kingside_castle [OF h] h by (simp del: doMove_sel)
qed

section \<open>When \<open>parseFEN\<close> fails\<close>

lemma parseRank_Inr:
  "parseRank r rk fi row = Inr (n, row') \<Longrightarrow>
     n = fi + rankSquares rk \<and> list_all recognized rk"
proof (induction rk arbitrary: fi row)
  case Nil
  then show ?case by (simp add: rankSquares_def)
next
  case (Cons ch cs)
  show ?case
  proof (cases "ch \<in> set digits18")
    case True
    with Cons.prems have "parseRank r cs (fi + digitVal ch) row = Inr (n, row')" by simp
    from Cons.IH [OF this] True show ?thesis
      by (simp add: rankSquares_def recognized_def)
  next
    case False
    with Cons.prems have pc: "ch \<in> set pieceChars" and small: "\<not> fi \<ge> 8"
      and rest: "parseRank r cs (fi + 1) (row[fi := Some ch]) = Inr (n, row')"
      by (auto split: if_splits)
    from Cons.IH [OF rest] False pc show ?thesis
      by (simp add: rankSquares_def recognized_def)
  qed
qed

lemma parseRank_ok:
  "list_all recognized rk \<Longrightarrow> fi + rankSquares rk \<le> 8 \<Longrightarrow>
     \<exists>row'. parseRank r rk fi row = Inr (fi + rankSquares rk, row')"
proof (induction rk arbitrary: fi row)
  case Nil
  then show ?case by (simp add: rankSquares_def)
next
  case (Cons ch cs)
  show ?case
  proof (cases "ch \<in> set digits18")
    case True
    have "\<exists>row'. parseRank r cs (fi + digitVal ch) row
             = Inr (fi + digitVal ch + rankSquares cs, row')"
      using Cons.prems True by (intro Cons.IH) (simp_all add: rankSquares_def)
    then show ?thesis using True by (simp add: rankSquares_def add.assoc)
  next
    case False
    with Cons.prems have pc: "ch \<in> set pieceChars" by (simp add: recognized_def)
    have "\<exists>row'. parseRank r cs (fi + 1) (row[fi := Some ch])
             = Inr (fi + 1 + rankSquares cs, row')"
      using Cons.prems False pc by (intro Cons.IH) (simp_all add: rankSquares_def)
    moreover have "\<not> fi \<ge> 8"
      using Cons.prems False pc by (simp add: rankSquares_def)
    ultimately show ?thesis using False pc by (simp add: rankSquares_def add.assoc)
  qed
qed

lemma rankAccepted_iff:
  "rankAccepted r rk \<longleftrightarrow> list_all recognized rk \<and> rankSquares rk = 8"
proof
  assume a: "rankAccepted r rk"
  then obtain row where "parseRank r rk 0 (replicate 8 None) = Inr (8, row)"
    by (auto simp: rankAccepted_def split: sum.splits)
  from parseRank_Inr [OF this] show "list_all recognized rk \<and> rankSquares rk = 8" by simp
next
  assume "list_all recognized rk \<and> rankSquares rk = 8"
  then obtain row' where "parseRank r rk 0 (replicate 8 None) = Inr (8, row')"
    using parseRank_ok [of rk 0 r "replicate 8 None"] by auto
  then show "rankAccepted r rk" by (simp add: rankAccepted_def)
qed

lemma parseRanks_isl:
  "isl (parseRanks r ranks) \<longleftrightarrow> \<not> list_all (\<lambda>rk. list_all recognized rk \<and> rankSquares rk = 8) ranks"
proof (induction ranks arbitrary: r)
  case Nil
  show ?case by simp
next
  case (Cons rk rest)
  show ?case
  proof (cases "rankAccepted r rk")
    case True
    then obtain row where "parseRank r rk 0 (replicate 8 None) = Inr (8, row)"
      by (auto simp: rankAccepted_def split: sum.splits)
    then show ?thesis
      using True Cons.IH [of "r + 1"]
      by (auto simp: rankAccepted_iff split: sum.splits)
  next
    case False
    then have l: "isl (parseRanks r (rk # rest))"
      by (auto simp: rankAccepted_def split: sum.splits)
    have "\<not> list_all (\<lambda>rk. list_all recognized rk \<and> rankSquares rk = 8) (rk # rest)"
      using False by (auto simp: rankAccepted_iff)
    with l show ?thesis by blast
  qed
qed

lemma ranks_malformed:
  "(\<not> list_all (\<lambda>rk. list_all recognized rk \<and> rankSquares rk = 8) ranks) \<longleftrightarrow>
     list_ex (\<lambda>rk. rankSquares rk \<noteq> 8) ranks
     \<or> list_ex (\<lambda>rk. list_ex (\<lambda>ch. \<not> recognized ch) rk) ranks"
  by (auto simp: list_all_iff list_ex_iff)

lemma parseFEN_isl: "isl (parseFEN s) \<longleftrightarrow> fenMalformed s"
proof -
  let ?fs = "splitWs (trim s)"
  let ?ranks = "splitChar (CHR ''/'') (?fs ! 0)"
  show ?thesis
  proof (cases "length ?fs \<noteq> 6 \<or> length ?ranks \<noteq> 8")
    case True
    then show ?thesis
      by (auto simp: parseFEN_def fenMalformed_def fenFields_def Let_def)
  next
    case False
    show ?thesis
    proof (cases "parseRanks 0 ?ranks")
      case (Inl e)
      then have "isl (parseRanks 0 ?ranks)" by simp
      then have "list_ex (\<lambda>rk. rankSquares rk \<noteq> 8) ?ranks
          \<or> list_ex (\<lambda>rk. list_ex (\<lambda>ch. \<not> recognized ch) rk) ?ranks"
        by (simp only: parseRanks_isl ranks_malformed)
      then show ?thesis
        using False Inl by (auto simp: parseFEN_def fenMalformed_def fenFields_def Let_def)
    next
      case (Inr b)
      then have "\<not> isl (parseRanks 0 ?ranks)" by simp
      then have "\<not> (list_ex (\<lambda>rk. rankSquares rk \<noteq> 8) ?ranks
          \<or> list_ex (\<lambda>rk. list_ex (\<lambda>ch. \<not> recognized ch) rk) ?ranks)"
        by (simp only: parseRanks_isl ranks_malformed) simp
      then show ?thesis
        using False Inr by (auto simp: parseFEN_def fenMalformed_def fenFields_def Let_def)
    qed
  qed
qed

lemma parseFEN_clocks:
  assumes "parseFEN s = Inr S"
  shows "halfmove S = parseClock (fenFields s ! 4) 0"
    and "fullmove S = parseClock (fenFields s ! 5) 1"
  using assms
  by (auto simp: parseFEN_def fenFields_def Let_def split: if_splits sum.splits)

text \<open>
  Claim C3.  \<open>parseFEN\<close> throws exactly when the text is malformed: the number of fields
  is not 6, or the number of ranks is not 8, or some rank does not count 8 squares, or
  the placement holds an unrecognized character, or the active colour is neither \<open>w\<close>
  nor \<open>b\<close>, or the en-passant field is neither \<open>-\<close> nor a file letter followed by 3 or
  6.  Otherwise it returns a position, whose halfmove clock is 0 when the fifth field
  is not a number and whose fullmove number is 1 when the sixth field is not a number.
\<close>

theorem parseFEN_fails_iff_malformed:
  "(\<exists>e. parseFEN s = Inl e) = fenMalformed s
   \<and> (\<not> fenMalformed s \<longrightarrow>
        (\<exists>S. parseFEN s = Inr S
           \<and> (numberIsNaN (fenFields s ! 4) \<longrightarrow> halfmove S = Num 0)
           \<and> (numberIsNaN (fenFields s ! 5) \<longrightarrow> fullmove S = Num 1)))"
proof -
  have a: "(\<exists>e. parseFEN s = Inl e) = fenMalformed s"
    using parseFEN_isl [of s] by (cases "parseFEN s") simp_all
  have b: "\<exists>S. parseFEN s = Inr S
           \<and> (numberIsNaN (fenFields s ! 4) \<longrightarrow> halfmove S = Num 0)
           \<and> (numberIsNaN (fenFields s ! 5) \<longrightarrow> fullmove S = Num 1)"
    if "\<not> fenMalformed s"
  proof -
    from that a obtain S where S: "parseFEN s = Inr S"
      by (cases "parseFEN s") auto
    show ?thesis
      using S parseFEN_clocks [OF S] by (simp add: parseClock_def)
  qed
  from a b show ?thesis by blast
qed

theorem parseFEN_fails_iff_malformed_witness:
  "\<not> fenMalformed sloppyClockFEN
   \<and> numberIsNaN (fenFields sloppyClockFEN ! 4) \<and> numberIsNaN (fenFields sloppyClockFEN ! 5)
   \<and> (\<exists>S. parseFEN sloppyClockFEN = Inr S \<and> halfmove S = Num 0 \<and> fullmove S = Num 1)"
proof -
  have h: "\<not> fenMalformed sloppyClockFEN"
    "numberIsNaN (fenFields sloppyClockFEN ! 4)" "numberIsNaN (fenFields sloppyClockFEN ! 5)"
    by code_simp+
  show ?thesis
    using parseFEN_fails_iff_malformed [of sloppyClockFEN] h by blast
qed

section \<open>The position key parsed as FEN\<close>

subsection \<open>Splitting a text with single separators\<close>

lemma splitWs_nospace: "\<not> list_ex isSpace a \<Longrightarrow> splitWs a = [a]"
  by (induction a) auto

lemma splitWs_field:
  "\<not> list_ex isSpace a \<Longrightarrow> isSpace c \<Longrightarrow>
     splitWs (a @ c # rest) = a # splitWs (dropWhile isSpace rest)"
  by (induction a) auto

lemma splitChar_nosep: "sep \<notin> set a \<Longrightarrow> splitChar sep a = [a]"
  by (induction a) auto

lemma splitChar_part:
  "sep \<notin> set a \<Longrightarrow> splitChar sep (a @ sep # rest) = a # splitChar sep rest"
  by (induction a) auto

lemma splitChar_joinWith:
  "xs \<noteq> [] \<Longrightarrow> list_all (\<lambda>x. sep \<notin> set x) xs \<Longrightarrow>
     splitChar sep (joinWith [sep] xs) = xs"
proof (induction "[sep]" xs rule: joinWith.induct)
  case 1
  then show ?case by simp
next
  case (2 x)
  then show ?case by (simp add: splitChar_nosep)
next
  case (3 x y zs)
  then show ?case by (simp add: splitChar_part)
qed

lemma set_joinWith: "set (joinWith sep xs) \<subseteq> set sep \<union> \<Union> (set ` set xs)"
  by (induction sep xs rule: joinWith.induct) auto

lemma trim_id:
  assumes "s \<noteq> []" and "\<not> isSpace (hd s)" and "\<not> isSpace (last s)"
  shows "trim s = s"
proof -
  have a: "dropWhile isSpace s = s"
    using assms(1,2) by (cases s) auto
  have "dropWhile isSpace (rev s) = rev s"
    using assms(1,3) by (cases "rev s") (auto simp: last_rev [symmetric] simp del: last_rev)
  then show ?thesis by (simp add: trim_def a)
qed

subsection \<open>The text of one row\<close>

lemma digit_facts:
  assumes "0 < n" and "n \<le> 8"
  shows "showNat n = [digitChar n]" and "digitChar n \<in> set digits18"
    and "digitVal (digitChar n) = n"
proof -
  from assms have "n \<in> {1, 2, 3, 4, 5, 6, 7, 8}" by auto
  then show "showNat n = [digitChar n]" "digitChar n \<in> set digits18"
    "digitVal (digitChar n) = n"
    by (auto simp: showNat.simps [of n] digitChar_def digits18_def digitVal_def)
qed

lemma rowKey_out: "rowKey cells out emp = out @ rowKey cells [] emp"
proof (induction cells arbitrary: out emp)
  case Nil
  show ?case by simp
next
  case (Cons cl cells)
  show ?case
  proof (cases cl)
    case None
    then show ?thesis using Cons.IH [of out "emp + 1"] by simp
  next
    case (Some ch)
    show ?thesis
      using Cons.IH [of "(if emp > 0 then out @ showNat emp else out) @ [ch]" 0]
        Cons.IH [of "(if emp > 0 then showNat emp else []) @ [ch]" 0]
      by (cases "emp > 0") (simp_all add: Some)
  qed
qed

lemma piece_not_digit: "ch \<in> set pieceChars \<Longrightarrow> ch \<notin> set digits18"
  by (auto simp: pieceChars_def digits18_def)

lemma parseRank_rowKey:
  "list_all pieceCell cells \<Longrightarrow> fi + emp + length cells \<le> 8 \<Longrightarrow>
     parseRank r (rowKey cells [] emp) fi row
       = Inr (fi + emp + length cells, fillRow row (fi + emp) cells)"
proof (induction cells arbitrary: fi emp row)
  case Nil
  then show ?case
    by (cases "emp = 0") (simp_all add: digit_facts)
next
  case (Cons cl cells)
  show ?case
  proof (cases cl)
    case None
    then show ?thesis
      using Cons.IH [of fi "emp + 1" row] Cons.prems by simp
  next
    case (Some ch)
    with Cons.prems have pc: "ch \<in> set pieceChars" and nd: "ch \<notin> set digits18"
      by (simp_all add: pieceCell_def piece_not_digit)
    have key: "rowKey (cl # cells) [] emp
        = (if emp > 0 then showNat emp else []) @ ch # rowKey cells [] 0"
      using rowKey_out [of cells "(if emp > 0 then showNat emp else []) @ [ch]" 0]
      by (cases "emp > 0") (simp_all add: Some)
    have rest: "parseRank r (ch # rowKey cells [] 0) (fi + emp) row
        = Inr (fi + emp + length (cl # cells), fillRow row (fi + emp) (cl # cells))"
      using Cons.IH [of "fi + emp + 1" 0 "row[fi + emp := Some ch]"] Cons.prems pc nd
      by (simp add: Some)
    have step: "parseRank r ((if emp > 0 then showNat emp else []) @ ch # rowKey cells [] 0) fi row
        = parseRank r (ch # rowKey cells [] 0) (fi + emp) row"
    proof (cases "emp = 0")
      case True
      then show ?thesis by simp
    next
      case False
      then have "0 < emp" "emp \<le> 8" using Cons.prems by simp_all
      from digit_facts [OF this] show ?thesis by simp
    qed
    show ?thesis
      by (simp only: key step rest)
  qed
qed

lemma fillRow_done:
  "fillRow (done @ replicate (length cells) None) (length done) cells = done @ cells"
proof (induction cells arbitrary: "done")
  case Nil
  show ?case by simp
next
  case (Cons cl cells)
  show ?case
  proof (cases cl)
    case None
    then show ?thesis
      using Cons.IH [of "done @ [None]"] by (simp add: replicate_app_Cons_same)
  next
    case (Some ch)
    then show ?thesis
      using Cons.IH [of "done @ [Some ch]"] by (simp add: list_update_append)
  qed
qed

lemma parseRank_row:
  assumes "length row = 8" and "list_all pieceCell row"
  shows "parseRank r (rowKey row [] 0) 0 (replicate 8 None) = Inr (8, row)"
  using parseRank_rowKey [of row 0 0 r "replicate 8 None"] fillRow_done [of "[]" row] assms
  by simp

lemma parseRanks_rows:
  "list_all (\<lambda>row. length row = 8 \<and> list_all pieceCell row) rows \<Longrightarrow>
     parseRanks r (map (\<lambda>row. rowKey row [] 0) rows) = Inr rows"
  by (induction rows arbitrary: r) (simp_all add: parseRank_row)

subsection \<open>The four fields of the key\<close>

lemma recognized_plain: "recognized ch \<Longrightarrow> \<not> isSpace ch \<and> ch \<noteq> CHR ''/''"
  by (auto simp: recognized_def digits18_def pieceChars_def isSpace_def)

lemma rowKey_recognized:
  assumes "length row = 8" and "list_all pieceCell row"
  shows "list_all recognized (rowKey row [] 0)"
  using parseRank_Inr [OF parseRank_row [OF assms, of 0]] by simp

lemma rowKey_plain:
  assumes "length row = 8" and "list_all pieceCell row"
  shows "CHR ''/'' \<notin> set (rowKey row [] 0)" and "\<not> list_ex isSpace (rowKey row [] 0)"
  using rowKey_recognized [OF assms] recognized_plain
  by (auto simp: list_all_iff list_ex_iff)

lemma placement_facts:
  assumes "wf_board b" and "list_all (list_all pieceCell) b"
  shows "splitChar (CHR ''/'') (joinWith ''/'' (map (\<lambda>row. rowKey row [] 0) b))
           = map (\<lambda>row. rowKey row [] 0) b"
    and "\<not> list_ex isSpace (joinWith ''/'' (map (\<lambda>row. rowKey row [] 0) b))"
    and "joinWith ''/'' (map (\<lambda>row. rowKey row [] 0) b) \<noteq> []"
    and "parseRanks 0 (map (\<lambda>row. rowKey row [] 0) b) = Inr b"
proof -
  let ?keys = "map (\<lambda>row. rowKey row [] 0) b"
  have rows: "list_all (\<lambda>row. length row = 8 \<and> list_all pieceCell row) b"
    using assms by (auto simp: wf_board_def list_all_iff)
  have len: "length ?keys = 8" using assms(1) by (simp add: wf_board_def)
  have plain: "list_all (\<lambda>x. CHR ''/'' \<notin> set x) ?keys" "list_all (\<lambda>x. \<not> list_ex isSpace x) ?keys"
    using rows rowKey_plain by (auto simp: list_all_iff)
  from len have ne: "?keys \<noteq> []" by auto
  show "splitChar (CHR ''/'') (joinWith ''/'' ?keys) = ?keys"
    using splitChar_joinWith [OF ne plain(1)] by simp
  show "\<not> list_ex isSpace (joinWith ''/'' ?keys)"
    using set_joinWith [of "''/''" ?keys] plain(2)
    by (auto simp: list_all_iff list_ex_iff isSpace_def)
  from len obtain x y zs where "?keys = x # y # zs"
    by (cases ?keys; cases "tl ?keys") auto
  then show "joinWith ''/'' ?keys \<noteq> []" by simp
  show "parseRanks 0 ?keys = Inr b"
    using rows by (rule parseRanks_rows)
qed

lemma castlingText_facts:
  "castlingText cr \<noteq> []" "\<not> list_ex isSpace (castlingText cr)"
  "(CHR ''K'' \<in> set (castlingText cr)) = wK cr" "(CHR ''Q'' \<in> set (castlingText cr)) = wQ cr"
  "(CHR ''k'' \<in> set (castlingText cr)) = bK cr" "(CHR ''q'' \<in> set (castlingText cr)) = bQ cr"
  by (cases "wK cr"; cases "wQ cr"; cases "bK cr"; cases "bQ cr";
      simp add: castlingText_def isSpace_def)+

lemma colorText_facts:
  "colorText c \<noteq> []" "\<not> list_ex isSpace (colorText c)"
  "(colorText c = ''w'') = (c = White)" "colorText c = ''w'' \<or> colorText c = ''b''"
  by (cases c; simp add: colorText_def isSpace_def)+

lemma enPassantText_facts:
  assumes "wf_enPassant ep"
  shows "enPassantText ep \<noteq> []" "\<not> list_ex isSpace (enPassantText ep)"
    "(enPassantText ep = ''-'') = (ep = None)"
    "ep \<noteq> None \<Longrightarrow> isEnPassantSquare (enPassantText ep)"
    "ep \<noteq> None \<Longrightarrow>
       Some (8 - int (digitVal (enPassantText ep ! 1)),
             int (of_char (enPassantText ep ! 0) - (97 :: nat))) = ep"
proof -
  consider "ep = None" | r c where "ep = Some (r, c)" "r = 2 \<or> r = 5" "0 \<le> c" "c < 8"
    using assms by (cases ep) (auto simp: wf_enPassant_def)
  then have "enPassantText ep \<noteq> [] \<and> \<not> list_ex isSpace (enPassantText ep)
      \<and> (enPassantText ep = ''-'') = (ep = None)
      \<and> (ep \<noteq> None \<longrightarrow> isEnPassantSquare (enPassantText ep)
            \<and> Some (8 - int (digitVal (enPassantText ep ! 1)),
                 int (of_char (enPassantText ep ! 0) - (97 :: nat))) = ep)"
  proof cases
    case 1
    then show ?thesis by (simp add: enPassantText_def isSpace_def)
  next
    case 2
    have six: "showInt 6 = ''6''" and three: "showInt 3 = ''3''"
      by (simp_all add: showInt_def digit_facts(1) digitChar_def)
    from 2 have "c = 0 \<or> c = 1 \<or> c = 2 \<or> c = 3 \<or> c = 4 \<or> c = 5 \<or> c = 6 \<or> c = 7"
      by arith
    with 2 show ?thesis
      by (auto simp: enPassantText_def isSpace_def filesStr_def six three isEnPassantSquare_def
            digitVal_def)
  qed
  then show "enPassantText ep \<noteq> []" "\<not> list_ex isSpace (enPassantText ep)"
    "(enPassantText ep = ''-'') = (ep = None)"
    "ep \<noteq> None \<Longrightarrow> isEnPassantSquare (enPassantText ep)"
    "ep \<noteq> None \<Longrightarrow>
       Some (8 - int (digitVal (enPassantText ep ! 1)),
             int (of_char (enPassantText ep ! 0) - (97 :: nat))) = ep"
    by blast+
qed

lemma positionKey_fields:
  "positionKey S = joinWith ''/'' (map (\<lambda>row. rowKey row [] 0) (board S))
     @ CHR '' '' # colorText (activeColor S) @ CHR '' '' # castlingText (castling S)
     @ CHR '' '' # enPassantText (enPassant S)"
  by (simp add: positionKey_def castlingText_def Let_def)

lemma splitWs_next:
  assumes "a \<noteq> []" and "\<not> list_ex isSpace a" and "b \<noteq> []" and "\<not> list_ex isSpace b"
  shows "splitWs (a @ CHR '' '' # b @ rest) = a # splitWs (b @ rest)"
proof -
  have "dropWhile isSpace (b @ rest) = b @ rest"
    using assms(3,4) by (cases b) auto
  then show ?thesis
    using splitWs_field [OF assms(2), of "CHR '' ''" "b @ rest"] by (simp add: isSpace_def)
qed

lemma key_fields:
  assumes wf: "wf_position S"
    and h: "h \<noteq> []" "\<not> list_ex isSpace h" and f: "f \<noteq> []" "\<not> list_ex isSpace f"
  shows "fenFields (positionKey S @ CHR '' '' # h @ CHR '' '' # f) =
     [joinWith ''/'' (map (\<lambda>row. rowKey row [] 0) (board S)), colorText (activeColor S),
      castlingText (castling S), enPassantText (enPassant S), h, f]"
proof -
  let ?rows = "joinWith ''/'' (map (\<lambda>row. rowKey row [] 0) (board S))"
  let ?side = "colorText (activeColor S)"
  let ?cast = "castlingText (castling S)"
  let ?ep = "enPassantText (enPassant S)"
  let ?t = "positionKey S @ CHR '' '' # h @ CHR '' '' # f"
  from wf have b: "wf_board (board S)" "list_all (list_all pieceCell) (board S)"
    and e: "wf_enPassant (enPassant S)"
    by (simp_all add: wf_position_def)
  note r = placement_facts(2,3) [OF b]
  note s = colorText_facts(1,2) [of "activeColor S"]
  note c = castlingText_facts(1,2) [of "castling S"]
  note p = enPassantText_facts(1,2) [OF e]
  have t: "?t = ?rows @ CHR '' '' # ?side @ (CHR '' '' # ?cast @ CHR '' '' # ?ep
             @ CHR '' '' # h @ CHR '' '' # f)"
    by (simp add: positionKey_fields)
  have hd: "\<not> isSpace (hd ?t)"
    using r by (cases ?rows) (auto simp: t)
  have "last ?t = last f" using f(1) by simp
  then have lst: "\<not> isSpace (last ?t)"
    using f by (auto simp: list_ex_iff)
  have "trim ?t = ?t"
    by (rule trim_id) (use hd lst in simp_all)
  moreover have "splitWs ?t = [?rows, ?side, ?cast, ?ep, h, f]"
  proof -
    have "splitWs ?t = ?rows # splitWs (?side @ (CHR '' '' # ?cast @ CHR '' '' # ?ep
             @ CHR '' '' # h @ CHR '' '' # f))"
      unfolding t using r s by (intro splitWs_next) simp_all
    also have "splitWs (?side @ (CHR '' '' # ?cast @ (CHR '' '' # ?ep
             @ CHR '' '' # h @ CHR '' '' # f)))
        = ?side # splitWs (?cast @ (CHR '' '' # ?ep @ CHR '' '' # h @ CHR '' '' # f))"
      using s c by (intro splitWs_next) simp_all
    also have "splitWs (?cast @ (CHR '' '' # ?ep @ (CHR '' '' # h @ CHR '' '' # f)))
        = ?cast # splitWs (?ep @ (CHR '' '' # h @ CHR '' '' # f))"
      using c p by (intro splitWs_next) simp_all
    also have "splitWs (?ep @ (CHR '' '' # h @ (CHR '' '' # f)))
        = ?ep # splitWs (h @ (CHR '' '' # f))"
      using p h by (intro splitWs_next) simp_all
    also have "splitWs (h @ (CHR '' '' # f)) = h # splitWs f"
      using splitWs_next [of h f "[]"] h f by simp
    also have "splitWs f = [f]"
      using f by (simp add: splitWs_nospace)
    finally show ?thesis by simp
  qed
  ultimately show ?thesis by (simp add: fenFields_def)
qed

lemma key_roundtrip:
  assumes wf: "wf_position S"
    and h: "h \<noteq> []" "\<not> list_ex isSpace h" and f: "f \<noteq> []" "\<not> list_ex isSpace f"
  shows "\<exists>S'. parseFEN (positionKey S @ CHR '' '' # h @ CHR '' '' # f) = Inr S'
     \<and> board S' = board S \<and> activeColor S' = activeColor S \<and> castling S' = castling S
     \<and> enPassant S' = enPassant S"
proof -
  from wf have b: "wf_board (board S)" "list_all (list_all pieceCell) (board S)"
    and e: "wf_enPassant (enPassant S)"
    by (simp_all add: wf_position_def)
  have len: "length (map (\<lambda>row. rowKey row [] 0) (board S)) = 8"
    using b(1) by (simp add: wf_board_def)
  note fields = key_fields [OF assms, unfolded fenFields_def]
  have cr: "\<lparr>wK = CHR ''K'' \<in> set (castlingText (castling S)),
             wQ = CHR ''Q'' \<in> set (castlingText (castling S)),
             bK = CHR ''k'' \<in> set (castlingText (castling S)),
             bQ = CHR ''q'' \<in> set (castlingText (castling S))\<rparr> = castling S"
    by (simp add: castlingText_facts)
  have col: "(if colorText (activeColor S) = ''w'' then White else Black) = activeColor S"
    using colorText_facts(3) [of "activeColor S"] by (cases "activeColor S") auto
  show ?thesis
  proof (cases "enPassant S")
    case None
    then have "enPassantText (enPassant S) = ''-''" by (simp add: enPassantText_def)
    then show ?thesis
      unfolding parseFEN_def fields Let_def
      using placement_facts(1,4) [OF b] len colorText_facts(4) [of "activeColor S"] cr col None
      by (simp del: map_eq_conv)
  next
    case (Some sq)
    then have ne: "enPassant S \<noteq> None" by simp
    note ep = enPassantText_facts(3,4,5) [OF e]
    show ?thesis
      unfolding parseFEN_def fields Let_def
      using placement_facts(1,4) [OF b] len colorText_facts(4) [of "activeColor S"] cr col
        ep(1) ep(2) [OF ne] ep(3) [OF ne] ne
      by (simp del: map_eq_conv)
  qed
qed

lemma key_alone_fields:
  assumes wf: "wf_position S"
  shows "fenFields (positionKey S) =
     [joinWith ''/'' (map (\<lambda>row. rowKey row [] 0) (board S)), colorText (activeColor S),
      castlingText (castling S), enPassantText (enPassant S)]"
proof -
  let ?rows = "joinWith ''/'' (map (\<lambda>row. rowKey row [] 0) (board S))"
  let ?side = "colorText (activeColor S)"
  let ?cast = "castlingText (castling S)"
  let ?ep = "enPassantText (enPassant S)"
  from wf have b: "wf_board (board S)" "list_all (list_all pieceCell) (board S)"
    and e: "wf_enPassant (enPassant S)"
    by (simp_all add: wf_position_def)
  note r = placement_facts(2,3) [OF b]
  note s = colorText_facts(1,2) [of "activeColor S"]
  note c = castlingText_facts(1,2) [of "castling S"]
  note p = enPassantText_facts(1,2) [OF e]
  have t: "positionKey S = ?rows @ CHR '' '' # ?side @ (CHR '' '' # ?cast @ CHR '' '' # ?ep)"
    by (simp add: positionKey_fields)
  have hd: "\<not> isSpace (hd (positionKey S))"
    using r by (cases ?rows) (auto simp: t)
  have "last (positionKey S) = last ?ep" using p(1) by (simp add: t)
  then have lst: "\<not> isSpace (last (positionKey S))"
    using p by (auto simp: list_ex_iff)
  have "trim (positionKey S) = positionKey S"
    by (rule trim_id) (use hd lst in \<open>simp_all add: t\<close>)
  moreover have "splitWs (positionKey S) = [?rows, ?side, ?cast, ?ep]"
  proof -
    have "splitWs (positionKey S)
        = ?rows # splitWs (?side @ (CHR '' '' # ?cast @ CHR '' '' # ?ep))"
      unfolding t using r s by (intro splitWs_next) simp_all
    also have "splitWs (?side @ (CHR '' '' # ?cast @ (CHR '' '' # ?ep)))
        = ?side # splitWs (?cast @ (CHR '' '' # ?ep))"
      using s c by (intro splitWs_next) simp_all
    also have "splitWs (?cast @ (CHR '' '' # ?ep)) = ?cast # splitWs ?ep"
      using splitWs_next [of ?cast ?ep "[]"] c p by simp
    also have "splitWs ?ep = [?ep]"
      using p by (simp add: splitWs_nospace)
    finally show ?thesis by simp
  qed
  ultimately show ?thesis by (simp add: fenFields_def)
qed

lemma key_alone_rejected:
  assumes "wf_position S"
  shows "parseFEN (positionKey S) = Inl FieldCount"
  using key_alone_fields [OF assms] by (simp add: parseFEN_def fenFields_def Let_def)

subsection \<open>Reachable positions are well formed\<close>

lemma list_all_update: "list_all P xs \<Longrightarrow> P v \<Longrightarrow> list_all P (xs[i := v])"
  by (induction xs arbitrary: i) (auto split: nat.splits)

lemma pieceCell_update:
  "list_all pieceCell row \<Longrightarrow> pieceCell v \<Longrightarrow> list_all pieceCell (row[i := v])"
  by (rule list_all_update)

lemma parseRank_wf:
  "parseRank r rk fi row = Inr (n, row') \<Longrightarrow> list_all pieceCell row \<Longrightarrow>
     length row' = length row \<and> list_all pieceCell row'"
proof (induction rk arbitrary: fi row)
  case Nil
  then show ?case by simp
next
  case (Cons ch cs)
  show ?case
  proof (cases "ch \<in> set digits18")
    case True
    with Cons.prems have "parseRank r cs (fi + digitVal ch) row = Inr (n, row')" by simp
    from Cons.IH [OF this Cons.prems(2)] show ?thesis .
  next
    case False
    with Cons.prems have pc: "ch \<in> set pieceChars"
      and rest: "parseRank r cs (fi + 1) (row[fi := Some ch]) = Inr (n, row')"
      by (auto split: if_splits)
    have "pieceCell (Some ch)"
      using pc by (simp add: pieceCell_def)
    with Cons.prems(2) have "list_all pieceCell (row[fi := Some ch])"
      by (rule pieceCell_update)
    from Cons.IH [OF rest this] show ?thesis by simp
  qed
qed

lemma parseRanks_wf:
  "parseRanks r ranks = Inr b \<Longrightarrow>
     length b = length ranks \<and> list_all (\<lambda>row. length row = 8 \<and> list_all pieceCell row) b"
proof (induction ranks arbitrary: r b)
  case Nil
  then show ?case by simp
next
  case (Cons rk rest)
  from Cons.prems obtain n row rows where
    row: "parseRank r rk 0 (replicate 8 None) = Inr (n, row)"
    and rows: "parseRanks (r + 1) rest = Inr rows" and b: "b = row # rows"
    by (auto split: sum.splits if_splits)
  have "list_all pieceCell (replicate 8 None)"
    by (simp add: list_all_iff pieceCell_def)
  from parseRank_wf [OF row this] Cons.IH [OF rows] b show ?case by simp
qed

lemma parsed_enPassant:
  "isEnPassantSquare t \<Longrightarrow>
     wf_enPassant (Some (8 - int (digitVal (t ! 1)), int (of_char (t ! 0) - (97 :: nat))))"
  by (auto simp: isEnPassantSquare_def wf_enPassant_def filesStr_def digitVal_def
           split: list.splits)

lemma parseFEN_wf:
  assumes "parseFEN s = Inr S"
  shows "wf_position S"
proof -
  let ?fs = "splitWs (trim s)"
  let ?ranks = "splitChar (CHR ''/'') (?fs ! 0)"
  from assms have len: "length ?ranks = 8"
    by (auto simp: parseFEN_def Let_def split: if_splits)
  from assms obtain b where b: "parseRanks 0 ?ranks = Inr b" and S: "board S = b"
    by (auto simp: parseFEN_def Let_def split: if_splits sum.splits)
  from assms have "enPassant S = None \<or>
      (isEnPassantSquare (?fs ! 3) \<and>
       enPassant S = Some (8 - int (digitVal (?fs ! 3 ! 1)), int (of_char (?fs ! 3 ! 0) - (97 :: nat))))"
    by (auto simp: parseFEN_def Let_def split: if_splits sum.splits)
  then have "wf_enPassant (enPassant S)"
    using parsed_enPassant by (auto simp: wf_enPassant_def)
  moreover have "wf_board b" "list_all (list_all pieceCell) b"
    using parseRanks_wf [OF b] len by (auto simp: wf_board_def list_all_iff)
  ultimately show ?thesis by (simp add: wf_position_def S)
qed

lemma cellAt_pieceCell:
  "wf_board b \<Longrightarrow> list_all (list_all pieceCell) b \<Longrightarrow> onBoard r c \<Longrightarrow> pieceCell (cellAt b r c)"
  unfolding wf_board_def cellAt_def onBoard_def
  by (auto simp: list_all_length)

lemma setCell_pieceCell:
  assumes "list_all (list_all pieceCell) b" and "pieceCell v"
  shows "list_all (list_all pieceCell) (setCell b r c v)"
proof (cases "nat r < length b")
  case True
  then have "list_all pieceCell (b ! nat r)"
    using assms(1) by (simp add: list_all_length)
  then have "list_all pieceCell ((b ! nat r)[nat c := v])"
    using assms(2) by (rule pieceCell_update)
  with assms(1) show ?thesis
    unfolding setCell_def by (rule list_all_update)
next
  case False
  then show ?thesis using assms(1) by (simp add: setCell_def list_update_beyond)
qed

lemma promo_pieceCell:
  "promo \<in> set promoKinds \<Longrightarrow>
     pieceCell (Some (toUpperCase promo)) \<and> pieceCell (Some (toLowerCase promo))"
  by (auto simp: promoKinds_def pieceCell_def pieceChars_def toUpperCase_Char toLowerCase_Char)

lemma pawn_letter:
  assumes "lower p = Some (CHR ''p'')"
  shows "p = Some (CHR ''p'') \<or> p = Some (CHR ''P'')"
proof -
  from assms obtain ch where p: "p = Some ch" and l: "toLowerCase ch = CHR ''p''"
    by (auto simp: lower_def)
  obtain b0 b1 b2 b3 b4 b5 b6 b7 where ch: "ch = Char b0 b1 b2 b3 b4 b5 b6 b7"
    by (cases ch)
  from l have "ch = CHR ''p'' \<or> ch = CHR ''P''"
    unfolding ch toLowerCase_Char by (auto split: if_splits)
  then show ?thesis using p by simp
qed

lemma pawnMoves_rows:
  assumes "m \<in> set (pawnMoves S r c)" and "lower (cellAt (board S) r c) = Some (CHR ''p'')"
    and "\<bar>fst (to_sq m) - r\<bar> = 2"
  shows "(r + fst (to_sq m)) div 2 = 2 \<or> (r + fst (to_sq m)) div 2 = 5"
proof -
  from pawn_letter [OF assms(2)] show ?thesis
  proof
    assume p: "cellAt (board S) r c = Some (CHR ''p'')"
    from assms(1,3) show ?thesis
      by (auto simp: pawnMoves_def Let_def p mkMove_def split: if_splits)
  next
    assume p: "cellAt (board S) r c = Some (CHR ''P'')"
    from assms(1,3) show ?thesis
      by (auto simp: pawnMoves_def Let_def p mkMove_def split: if_splits)
  qed
qed

lemma kingMoves_shape:
  assumes "m \<in> set (kingMoves S r c)"
  shows "from_sq m = (r, c)
     \<and> (promotion m = None \<or> (\<exists>promo \<in> set promoKinds. promotion m = Some promo))
     \<and> (castle (flags m) \<noteq> None \<longrightarrow> fst (to_sq m) = 7 \<or> fst (to_sq m) = 0)"
proof -
  have "m \<in> set (stepMoves (board S) r c kingDeltas)
      \<or> ((r = 7 \<and> c = 4) \<and> (m = castleMove 7 6 (cellAt (board S) r c) (CHR ''K'')
                               \<or> m = castleMove 7 2 (cellAt (board S) r c) (CHR ''Q'')))
      \<or> ((r = 0 \<and> c = 4) \<and> (m = castleMove 0 6 (cellAt (board S) r c) (CHR ''K'')
                               \<or> m = castleMove 0 2 (cellAt (board S) r c) (CHR ''Q'')))"
    using assms by (auto simp: kingMoves_def Let_def split: if_splits)
  then show ?thesis
    using stepMoves_plain [of m "board S" r c kingDeltas]
    by (auto simp: plainMove_def castleMove_def mkMove_def noFlags_def)
qed

lemma movesFrom_shape:
  assumes "m \<in> set (movesFrom S r c)"
  shows "generatedShape S r c m"
proof -
  let ?p = "cellAt (board S) r c"
  show ?thesis
  proof (cases "lower ?p = Some (CHR ''p'')")
    case True
    with assms have pm: "m \<in> set (pawnMoves S r c)"
      by (auto simp: movesFrom_def Let_def split: if_splits)
    from pawnMoves_plain [OF pm] pawnMoves_rows [OF pm True] show ?thesis
      by (auto simp: generatedShape_def plainMove_def)
  next
    case False
    show ?thesis
    proof (cases "lower ?p = Some (CHR ''k'')")
      case True
      with assms have "m \<in> set (kingMoves S r c)"
        by (auto simp: movesFrom_def Let_def split: if_splits)
      from kingMoves_shape [OF this] False show ?thesis
        by (auto simp: generatedShape_def)
    next
      case nk: False
      with assms False have "plainMove r c m"
        by (auto simp: movesFrom_def Let_def knightMoves_def
                 dest: stepMoves_plain slidingMoves_plain split: if_splits)
      then show ?thesis
        using False by (auto simp: generatedShape_def plainMove_def)
    qed
  qed
qed

lemma boardAfter_wf:
  assumes wf: "wf_board b" and pc: "list_all (list_all pieceCell) b"
    and ob: "onBoard r c" and sh: "generatedShape S r c m"
  shows "wf_board (boardAfter b m) \<and> list_all (list_all pieceCell) (boardAfter b m)"
proof -
  obtain tr tc where to: "to_sq m = (tr, tc)" by (cases "to_sq m")
  from sh have fr: "from_sq m = (r, c)" by (simp add: generatedShape_def)
  let ?pc = "cellAt b r c"
  let ?b1 = "setCell b r c None"
  let ?b2 = "if enpassant (flags m) then setCell ?b1 r tc None else ?b1"
  have none: "pieceCell None" by (simp add: pieceCell_def)
  have p: "pieceCell ?pc" using wf pc ob by (rule cellAt_pieceCell)
  have b2: "wf_board ?b2" "list_all (list_all pieceCell) ?b2"
    using wf pc none by (simp_all add: setCell_pieceCell)
  show ?thesis
  proof (cases "castle (flags m) = None")
    case True
    show ?thesis
    proof (cases "promotion m")
      case None
      then have "boardAfter b m = setCell ?b2 tr tc ?pc"
        by (simp add: boardAfter_def fr to True Let_def)
      then show ?thesis using b2 p by (simp add: setCell_pieceCell)
    next
      case (Some promo)
      with sh have "promo \<in> set promoKinds" by (auto simp: generatedShape_def)
      from promo_pieceCell [OF this] have
        "pieceCell (Some (if ?pc = map_option toUpperCase ?pc then toUpperCase promo
                          else toLowerCase promo))" by simp
      moreover have "boardAfter b m = setCell ?b2 tr tc
          (Some (if ?pc = map_option toUpperCase ?pc then toUpperCase promo else toLowerCase promo))"
        using Some by (simp add: boardAfter_def fr to True Let_def)
      ultimately show ?thesis using b2 by (simp add: setCell_pieceCell)
    qed
  next
    case False
    with sh to have row: "tr = 7 \<or> tr = 0" by (simp add: generatedShape_def)
    let ?c1 = "setCell ?b2 tr tc ?pc"
    have c1: "wf_board ?c1" "list_all (list_all pieceCell) ?c1"
      using b2 p by (simp_all add: setCell_pieceCell)
    have corner: "pieceCell (cellAt ?c1 tr 7)" "pieceCell (cellAt ?c1 tr 0)"
      using c1 row by (auto intro!: cellAt_pieceCell simp: onBoard_def)
    have "boardAfter b m = setCell (setCell ?c1 tr 5 (cellAt ?c1 tr 7)) tr 7 None
        \<or> boardAfter b m = setCell (setCell ?c1 tr 3 (cellAt ?c1 tr 0)) tr 0 None
        \<or> boardAfter b m = ?b2"
      using False by (simp add: boardAfter_def fr to Let_def)
    then show ?thesis
      using c1 b2 corner none by (auto simp: setCell_pieceCell)
  qed
qed

lemma doMove_wf:
  assumes wf: "wf_position S" and m: "m \<in> set (generatePseudoLegalMoves S)"
  shows "wf_position (doMove S m)"
proof -
  from pseudoLegal_from [OF m] obtain r c where
    ob: "onBoard r c" and mf: "m \<in> set (movesFrom S r c)" by blast
  note sh = movesFrom_shape [OF mf]
  from wf have b: "wf_board (board S)" "list_all (list_all pieceCell) (board S)"
    by (simp_all add: wf_position_def)
  from sh have fr: "from_sq m = (r, c)" by (simp add: generatedShape_def)
  obtain tr tc where to: "to_sq m = (tr, tc)" by (cases "to_sq m")
  have "wf_enPassant (enPassantAfter (cellAt (board S) r c) m)"
    using sh ob by (auto simp: enPassantAfter_def fr to wf_enPassant_def generatedShape_def
        onBoard_def)
  then show ?thesis
    using boardAfter_wf [OF b ob sh] by (simp add: wf_position_def fr)
qed

lemma reachable_wf: "reachable S \<Longrightarrow> wf_position S"
proof (induction rule: reachable.induct)
  case (reachable_init fen S)
  then show ?case by (rule parseFEN_wf)
next
  case (reachable_step S m)
  then show ?case by (intro doMove_wf) (simp_all add: generateLegalMoves_def)
qed

text \<open>
  Claim C2, as stated, fails: the only serializer of the engine is \<open>positionKey\<close>, which
  writes four fields, and \<open>parseFEN\<close> rejects its text for the starting position.
\<close>

theorem positionKey_not_fen_counterexample:
  "reachable startPosition
   \<and> positionKey startPosition = ''rnbqkbnr/pppppppp/8/8/8/8/PPPPPPPP/RNBQKBNR w KQkq -''
   \<and> parseFEN (positionKey startPosition) = Inl FieldCount"
proof -
  have "reachable startPosition"
    using parseFEN_start by (rule reachable_init)
  moreover have
    "positionKey startPosition = ''rnbqkbnr/pppppppp/8/8/8/8/PPPPPPPP/RNBQKBNR w KQkq -''"
    "parseFEN (positionKey startPosition) = Inl FieldCount"
    by code_simp+
  ultimately show ?thesis by blast
qed

text \<open>
  Claim C2, amended.  For every reachable position, the text of \<open>positionKey\<close> is the
  first four fields of a FEN text and has no clock fields, so \<open>parseFEN\<close> rejects it as
  it stands, for its field count; followed by a blank, any halfmove field, a blank and
  any fullmove field (two non-empty texts without white space), it is parsed by
  \<open>parseFEN\<close> into a position with the same board, side to move, castling rights and
  en-passant target.
\<close>

theorem positionKey_roundtrip:
  assumes "reachable S"
    and "h \<noteq> []" and "\<not> list_ex isSpace h" and "f \<noteq> []" and "\<not> list_ex isSpace f"
  shows "parseFEN (positionKey S) = Inl FieldCount
     \<and> (\<exists>S'. parseFEN (positionKey S @ CHR '' '' # h @ CHR '' '' # f) = Inr S'
           \<and> board S' = board S \<and> activeColor S' = activeColor S
           \<and> castling S' = castling S \<and> enPassant S' = enPassant S)"
  using key_alone_rejected [OF reachable_wf [OF assms(1)]]
    key_roundtrip [OF reachable_wf [OF assms(1)] assms(2-5)]
  by blast

theorem positionKey_roundtrip_witness:
  "reachable (doMove startPosition e2e4)
   \<and> parseFEN (positionKey (doMove startPosition e2e4)) = Inl FieldCount
   \<and> (\<exists>S'. parseFEN (positionKey (doMove startPosition e2e4)
                        @ CHR '' '' # ''0'' @ CHR '' '' # ''1'') = Inr S'
           \<and> board S' = board (doMove startPosition e2e4)
           \<and> activeColor S' = activeColor (doMove startPosition e2e4)
           \<and> castling S' = castling (doMove startPosition e2e4)
           \<and> enPassant S' = enPassant (doMove startPosition e2e4))"
proof -
  have r: "reachable (doMove startPosition e2e4)"
    using reachable_init [OF parseFEN_start] e2e4_legal by (rule reachable_step)
  have t: "''0'' \<noteq> []" "\<not> list_ex isSpace ''0''" "''1'' \<noteq> []" "\<not> list_ex isSpace ''1''"
    by (simp_all add: isSpace_def)
  show ?thesis
    using positionKey_roundtrip [OF r t] r by blast
qed

section \<open>Threefold repetition\<close>

lemma count_fold:
  "foldl (\<lambda>cnt k. if k = key then cnt + 1 else cnt) n ks = n + count_list ks key"
  by (induction ks arbitrary: n) auto

lemma positionKey_clocks: "positionKey (S\<lparr>halfmove := h, fullmove := f\<rparr>) = positionKey S"
  by (simp add: positionKey_def)

lemma positionKey_eq_iff:
  assumes "wf_position S" and "wf_position S'"
  shows "(positionKey S = positionKey S') =
     (board S = board S' \<and> activeColor S = activeColor S' \<and> castling S = castling S'
      \<and> enPassant S = enPassant S')"
proof
  assume eq: "positionKey S = positionKey S'"
  have t: "''0'' \<noteq> []" "\<not> list_ex isSpace ''0''" "''1'' \<noteq> []" "\<not> list_ex isSpace ''1''"
    by (simp_all add: isSpace_def)
  from key_roundtrip [OF assms(1) t] key_roundtrip [OF assms(2) t] eq
  show "board S = board S' \<and> activeColor S = activeColor S' \<and> castling S = castling S'
      \<and> enPassant S = enPassant S'"
    by auto
next
  assume "board S = board S' \<and> activeColor S = activeColor S' \<and> castling S = castling S'
      \<and> enPassant S = enPassant S'"
  then show "positionKey S = positionKey S'"
    by (simp add: positionKey_def)
qed

text \<open>
  Claim C7.  \<open>isThreefoldRepetition\<close> is true exactly when the key of the current position
  occurs at least three times in the position history.  The key does not change with
  the two clocks, and two well-formed positions have the same key exactly when they
  agree in placement, side to move, castling rights and en-passant target.
\<close>

theorem threefold_iff_three_occurrences:
  "isThreefoldRepetition e =
     (3 \<le> count_list (positionHistory e) (positionKey (state e)))
   \<and> positionKey (S\<lparr>halfmove := h, fullmove := f\<rparr>) = positionKey S
   \<and> (wf_position S \<longrightarrow> wf_position S' \<longrightarrow>
        (positionKey S = positionKey S') =
          (board S = board S' \<and> activeColor S = activeColor S' \<and> castling S = castling S'
           \<and> enPassant S = enPassant S'))"
  using positionKey_eq_iff [of S S']
  by (simp add: isThreefoldRepetition_def Let_def count_fold positionKey_clocks)

theorem threefold_iff_three_occurrences_witness:
  "wf_position startPosition \<and> wf_position (doMove startPosition e2e4)
   \<and> positionKey startPosition \<noteq> positionKey (doMove startPosition e2e4)
   \<and> activeColor startPosition \<noteq> activeColor (doMove startPosition e2e4)"
proof -
  have w: "wf_position startPosition" "wf_position (doMove startPosition e2e4)"
    using reachable_wf [OF reachable_init [OF parseFEN_start]]
      reachable_wf [OF reachable_step [OF reachable_init [OF parseFEN_start] e2e4_legal]]
    by simp_all
  have c: "activeColor startPosition \<noteq> activeColor (doMove startPosition e2e4)"
    by (simp add: oppositeColor_def)
  show ?thesis
    using threefold_iff_three_occurrences
            [where S = startPosition and S' = "doMove startPosition e2e4"] w c
    by blast
qed

section \<open>Move counts from the starting position\<close>

lemma start_legal: "generateLegalMoves startPosition = startMoves"
  by code_simp

lemma replies_a: "list_all (\<lambda>m. replies m = 20) (pawnFirstMoves 0 @ pawnFirstMoves 1)"
  by code_simp

lemma replies_b: "list_all (\<lambda>m. replies m = 20) (pawnFirstMoves 2 @ pawnFirstMoves 3)"
  by code_simp

lemma replies_c: "list_all (\<lambda>m. replies m = 20) (pawnFirstMoves 4 @ pawnFirstMoves 5)"
  by code_simp

lemma replies_d: "list_all (\<lambda>m. replies m = 20) (pawnFirstMoves 6 @ pawnFirstMoves 7)"
  by code_simp

lemma replies_e: "list_all (\<lambda>m. replies m = 20)
    [knightFirstMove 1 2, knightFirstMove 1 0, knightFirstMove 6 7, knightFirstMove 6 5]"
  by code_simp

lemma replies_all: "list_all (\<lambda>m. replies m = 20) startMoves"
  using replies_a replies_b replies_c replies_d replies_e
  by (simp add: startMoves_def range8_def)

lemma sum_list_const:
  "list_all (\<lambda>m. f m = (k::nat)) ms \<Longrightarrow> sum_list (map f ms) = k * length ms"
  by (induction ms) auto

text \<open>
  Claim C9.  The position parsed from \<open>START_FEN\<close> has exactly 20 legal moves, and the
  numbers of legal replies in the 20 positions that these moves lead to add up to 400.
\<close>

theorem perft_start:
  "parseFEN START_FEN = Inr startPosition
   \<and> length (generateLegalMoves startPosition) = 20
   \<and> sum_list (map (\<lambda>m. length (generateLegalMoves (doMove startPosition m)))
        (generateLegalMoves startPosition)) = 400"
proof -
  have len: "length startMoves = 20"
    by (simp add: startMoves_def range8_def pawnFirstMoves_def)
  have "sum_list (map replies startMoves) = 20 * length startMoves"
    using replies_all by (rule sum_list_const)
  then have "sum_list (map (\<lambda>m. length (generateLegalMoves (doMove startPosition m))) startMoves)
      = 400"
    unfolding replies_def using len by simp
  then show ?thesis
    using len by (simp add: start_legal parseFEN_start)
qed

end
